theory Spec2Isabelle
  imports Main "HOL-Library.Word" "HOL-Library.AList" "HOL-Library.Multiset"
begin

unbundle bit_operations_syntax

section \<open>The historical FIFO of \<^verbatim>\<open>queue/historical.go\<close>\<close>

text \<open>
  The theory embeds the store-and-queue of \<^verbatim>\<open>src/queue/historical.go\<close>: the entry
  model, the merge step, the garbage collector and the public operations
  Add, Update, Readd, Delete, List, ContainedIDs, Get, Pop and Replace.

  Modelling decisions, each visible in the definitions below:
  \<^item> \<^verbatim>\<open>EventType\<close> is Go's \<^verbatim>\<open>int\<close>, taken as a 64-bit word; only \<^verbatim>\<open>&\<close> and
    \<^verbatim>\<open>|\<close> are applied to it.
  \<^item> \<^verbatim>\<open>time.Time\<close> and \<^verbatim>\<open>time.Duration\<close> are integers (nanoseconds);
    \<^verbatim>\<open>t.Add(d)\<close> is \<open>t + d\<close> and \<^verbatim>\<open>t.Before(u)\<close> is \<open>t < u\<close>. Every call of
    \<^verbatim>\<open>time.Now()\<close> is a parameter of the function that makes it, so two readings
    of the clock inside one operation may differ.
  \<^item> A value is of an arbitrary type \<open>'v\<close>; its \<^verbatim>\<open>GetUID\<close> method is the
    parameter \<open>uid\<close>. \<^verbatim>\<open>checkType\<close> cannot fail on a \<open>'v\<close>: the type excludes
    the objects on which it panics.
  \<^item> The two implementations of the \<^verbatim>\<open>Entry\<close> interface are the two constructors
    of a datatype; a failed type assertion (\<^verbatim>\<open>item.(*entry)\<close> on a
    \<^verbatim>\<open>*deletedEntry\<close> and conversely) is the error value \<open>TypeAssertionPanic\<close>.
  \<^item> \<^verbatim>\<open>items\<close> is a Go map. It is an association list with distinct keys: lookup
    is \<open>map_of\<close>, assignment \<open>AList.update\<close>, \<^verbatim>\<open>delete\<close> is \<open>AList.delete\<close>,
    and \<^verbatim>\<open>range\<close> visits the list in its order, which stands for the order the Go
    runtime happens to choose. The argument of Replace is such a list as well.
  \<^item> Operations run one at a time (each holds the lock). Entries are values, not
    pointers: no operation keeps a pointer to an entry beyond its own return, the
    carrier receives copies.
  \<^item> The carrier is the one \<^verbatim>\<open>NewFIFO\<close> builds for a channel: an operation returns
    the list of entries sent on the channel, in order.
\<close>

subsection \<open>Entries\<close>

type_synonym EventType = "64 word"

definition ADD_EVENT :: EventType where "ADD_EVENT = 1"
definition UPDATE_EVENT :: EventType where "UPDATE_EVENT = 2"
definition DELETE_EVENT :: EventType where "DELETE_EVENT = 4"
definition POP_EVENT :: EventType where "POP_EVENT = 8"

type_synonym Time = int
type_synonym Duration = int

text \<open>
  Modelled from the spec: the implementations of \<^verbatim>\<open>Copyable.Copy\<close> belong to the
  callers and are not in the repository. The interface asks for "an independent copy
  (deep clone) of the current object"; on values without identity that is the value
  itself. \<^verbatim>\<open>reflect.DeepEqual\<close> on such values is equality.
\<close>

definition Copy :: "'v \<Rightarrow> 'v" where
  "Copy v = v"

definition DeepEqual :: "'v \<Rightarrow> 'v \<Rightarrow> bool" where
  "DeepEqual a b = (a = b)"

record 'v entry =
  "value" :: 'v
  event :: EventType

datatype 'v Entry =
    PlainEntry "'v entry"
  | DeletedEntry "'v entry" Time

fun entry_of :: "'v Entry \<Rightarrow> 'v entry" where
  "entry_of (PlainEntry e) = e"
| "entry_of (DeletedEntry e t) = e"

definition Value :: "'v Entry \<Rightarrow> 'v" where
  "Value e = value (entry_of e)"

definition Is :: "'v Entry \<Rightarrow> EventType \<Rightarrow> bool" where
  "Is e types = (types AND event (entry_of e) \<noteq> 0)"

definition entry_Copy :: "'v entry \<Rightarrow> 'v entry" where
  "entry_Copy e = \<lparr>value = Copy (value e), event = event e\<rparr>"

fun Entry_Copy :: "'v Entry \<Rightarrow> 'v Entry" where
  "Entry_Copy (PlainEntry e) = PlainEntry (entry_Copy e)"
| "Entry_Copy (DeletedEntry e t) = DeletedEntry (entry_Copy e) t"

text \<open>The carrier of \<^verbatim>\<open>NewFIFO\<close> for a channel: a nil message is dropped, any other is
  copied and sent.\<close>

fun carrier :: "'v Entry option \<Rightarrow> 'v Entry list" where
  "carrier None = []"
| "carrier (Some msg) = [Entry_Copy msg]"

definition deliver :: "'v Entry list \<Rightarrow> 'v Entry list" where
  "deliver notifications = concat (map (\<lambda>e. carrier (Some e)) notifications)"

subsection \<open>The queue\<close>

datatype error = TypeAssertionPanic

record 'v HistoricalFIFO =
  items :: "(string \<times> 'v Entry) list"
  queue :: "string list"
  gcc :: int
  lingerTTL :: Duration

definition Minute :: Duration where
  "Minute = 60 * 1000000000"

definition NewFIFO :: "'v HistoricalFIFO" where
  "NewFIFO = \<lparr>items = [], queue = [], gcc = 0, lingerTTL = 5 * Minute\<rparr>"

subsection \<open>Garbage collection\<close>

text \<open>The first loop of \<^verbatim>\<open>gc\<close>: it ranges over \<^verbatim>\<open>f.items\<close> and deletes the key it is
  at, so every key of the map at entry is visited once, with the entry it had then.\<close>

fun gc_scan ::
  "Time \<Rightarrow> (string \<times> 'v Entry) list \<Rightarrow> (string \<times> 'v Entry) list \<times> string set
     \<Rightarrow> error + ((string \<times> 'v Entry) list \<times> string set)" where
  "gc_scan now [] acc = Inr acc"
| "gc_scan now ((key, v) # rest) (its, deleted) =
     (if Is v DELETE_EVENT then
        (case v of
           PlainEntry e \<Rightarrow> Inl TypeAssertionPanic
         | DeletedEntry e expiration \<Rightarrow>
             if expiration < now
             then gc_scan now rest (AList.delete key its, insert key deleted)
             else gc_scan now rest (its, deleted))
      else gc_scan now rest (its, deleted))"

definition gc :: "Time \<Rightarrow> 'v HistoricalFIFO \<Rightarrow> error + 'v HistoricalFIFO" where
  "gc now f =
     (case gc_scan now (items f) (items f, {}) of
        Inl err \<Rightarrow> Inl err
      | Inr (its, deleted) \<Rightarrow>
          Inr (f\<lparr>items := its, queue := filter (\<lambda>key. key \<notin> deleted) (queue f)\<rparr>))"

subsection \<open>Merge\<close>

text \<open>\<open>now\<close> is the clock as \<^verbatim>\<open>merge\<close> reads it, \<open>gcnow\<close> as \<^verbatim>\<open>gc\<close> reads it when the
  counter reaches a multiple of 256. Go's \<^verbatim>\<open>%\<close> truncates; a remainder is zero for
  the truncated division exactly when it is for the floored one.\<close>

definition merge_store ::
  "('v \<Rightarrow> string) \<Rightarrow> Time \<Rightarrow> 'v HistoricalFIFO \<Rightarrow> string \<Rightarrow> 'v
     \<Rightarrow> error + ('v HistoricalFIFO \<times> 'v Entry list)" where
  "merge_store uid now f key obj =
     (case map_of (items f) key of
        None \<Rightarrow>
          (let e = PlainEntry \<lparr>value = Copy obj, event = ADD_EVENT\<rparr>
           in Inr (f\<lparr>items := AList.update key e (items f)\<rparr>, [e]))
      | Some item \<Rightarrow>
          if \<not> Is item DELETE_EVENT \<and> uid (Value item) \<noteq> uid obj then
            (case item of
               DeletedEntry ent t \<Rightarrow> Inl TypeAssertionPanic
             | PlainEntry ent \<Rightarrow>
                 (let e1 = DeletedEntry (ent\<lparr>event := DELETE_EVENT\<rparr>) (now + lingerTTL f);
                      e2 = PlainEntry \<lparr>value = Copy obj, event = ADD_EVENT\<rparr>
                  in Inr (f\<lparr>items := AList.update key e2 (items f)\<rparr>, [e1, e2])))
          else if \<not> DeepEqual obj (Value item) then
            (let e = PlainEntry \<lparr>value = Copy obj, event = UPDATE_EVENT\<rparr>
             in Inr (f\<lparr>items := AList.update key e (items f)\<rparr>, [e]))
          else Inr (f, []))"

definition merge_gc ::
  "Time \<Rightarrow> 'v HistoricalFIFO \<Rightarrow> error + 'v HistoricalFIFO" where
  "merge_gc gcnow f =
     (let f1 = f\<lparr>gcc := gcc f + 1\<rparr>
      in if gcc f1 mod 256 = 0 then gc gcnow (f1\<lparr>gcc := 0\<rparr>) else Inr f1)"

definition merge ::
  "('v \<Rightarrow> string) \<Rightarrow> Time \<Rightarrow> Time \<Rightarrow> 'v HistoricalFIFO \<Rightarrow> string \<Rightarrow> 'v
     \<Rightarrow> error + ('v HistoricalFIFO \<times> 'v Entry list)" where
  "merge uid now gcnow f key obj =
     (case merge_store uid now f key obj of
        Inl err \<Rightarrow> Inl err
      | Inr (f1, notifications) \<Rightarrow>
          (case merge_gc gcnow f1 of
             Inl err \<Rightarrow> Inl err
           | Inr f2 \<Rightarrow> Inr (f2, notifications)))"

subsection \<open>Add, Update, Readd, Delete\<close>

definition Add ::
  "('v \<Rightarrow> string) \<Rightarrow> Time \<Rightarrow> Time \<Rightarrow> 'v HistoricalFIFO \<Rightarrow> string \<Rightarrow> 'v
     \<Rightarrow> error + ('v HistoricalFIFO \<times> 'v Entry list)" where
  "Add uid now gcnow f key obj =
     (let f1 = (case map_of (items f) key of
                  None \<Rightarrow> f\<lparr>queue := queue f @ [key]\<rparr>
                | Some entry \<Rightarrow>
                    if Is entry (DELETE_EVENT OR POP_EVENT)
                    then f\<lparr>queue := queue f @ [key]\<rparr>
                    else f)
      in case merge uid now gcnow f1 key obj of
           Inl err \<Rightarrow> Inl err
         | Inr (f2, notifications) \<Rightarrow> Inr (f2, deliver notifications))"

definition Update ::
  "('v \<Rightarrow> string) \<Rightarrow> Time \<Rightarrow> Time \<Rightarrow> 'v HistoricalFIFO \<Rightarrow> string \<Rightarrow> 'v
     \<Rightarrow> error + ('v HistoricalFIFO \<times> 'v Entry list)" where
  "Update uid now gcnow f key obj = Add uid now gcnow f key obj"

definition Readd ::
  "('v \<Rightarrow> string) \<Rightarrow> Time \<Rightarrow> Time \<Rightarrow> 'v HistoricalFIFO \<Rightarrow> string \<Rightarrow> 'v \<Rightarrow> EventType
     \<Rightarrow> error + ('v HistoricalFIFO \<times> 'v Entry list)" where
  "Readd uid now gcnow f key obj t =
     (case map_of (items f) key of
        Some entry \<Rightarrow>
          if \<not> Is entry t then Inr (f, deliver [])
          else
            (let f1 = (if Is entry (DELETE_EVENT OR POP_EVENT)
                       then f\<lparr>queue := queue f @ [key]\<rparr> else f)
             in case merge uid now gcnow f1 key obj of
                  Inl err \<Rightarrow> Inl err
                | Inr (f2, notifications) \<Rightarrow> Inr (f2, deliver notifications))
      | None \<Rightarrow>
          (case merge uid now gcnow f key obj of
             Inl err \<Rightarrow> Inl err
           | Inr (f2, notifications) \<Rightarrow> Inr (f2, deliver notifications)))"

definition Delete ::
  "Time \<Rightarrow> 'v HistoricalFIFO \<Rightarrow> string \<Rightarrow> error + ('v HistoricalFIFO \<times> 'v Entry list)" where
  "Delete now f key =
     (case map_of (items f) key of
        None \<Rightarrow> Inr (f, carrier None)
      | Some item \<Rightarrow>
          if \<not> Is item DELETE_EVENT then
            (case item of
               DeletedEntry e t \<Rightarrow> Inl TypeAssertionPanic
             | PlainEntry e \<Rightarrow>
                 (let deleteEvent = DeletedEntry (e\<lparr>event := DELETE_EVENT\<rparr>) (now + lingerTTL f)
                  in Inr (f\<lparr>items := AList.update key deleteEvent (items f)\<rparr>,
                          carrier (Some deleteEvent))))
          else Inr (f, carrier None))"

subsection \<open>List, ContainedIDs, Get\<close>

fun List_range :: "(string \<times> 'v Entry) list \<Rightarrow> 'v list \<Rightarrow> 'v list" where
  "List_range [] list = list"
| "List_range ((key, entry) # rest) list =
     (if Is entry (DELETE_EVENT OR POP_EVENT) then List_range rest list
      else List_range rest (list @ [Copy (Value entry)]))"

definition List :: "'v HistoricalFIFO \<Rightarrow> 'v list" where
  "List f = List_range (items f) []"

fun ContainedIDs_range :: "(string \<times> 'v Entry) list \<Rightarrow> string set \<Rightarrow> string set" where
  "ContainedIDs_range [] s = s"
| "ContainedIDs_range ((key, entry) # rest) s =
     (if Is entry (DELETE_EVENT OR POP_EVENT) then ContainedIDs_range rest s
      else ContainedIDs_range rest (insert key s))"

definition ContainedIDs :: "'v HistoricalFIFO \<Rightarrow> string set" where
  "ContainedIDs c = ContainedIDs_range (items c) {}"

text \<open>\<^verbatim>\<open>Get\<close> returns \<^verbatim>\<open>(value, true)\<close> or \<^verbatim>\<open>(nil, false)\<close>: an option.\<close>

definition Get :: "'v HistoricalFIFO \<Rightarrow> string \<Rightarrow> 'v option" where
  "Get f key =
     (case map_of (items f) key of
        None \<Rightarrow> None
      | Some entry \<Rightarrow>
          if \<not> Is entry (DELETE_EVENT OR POP_EVENT) then Some (Copy (Value entry))
          else None)"

subsection \<open>Pop\<close>

text \<open>
  \<^verbatim>\<open>Pop\<close> either returns a value, with the new state and what the carrier sent, or it
  reaches \<^verbatim>\<open>f.cond.Wait()\<close> with an empty queue: \<open>Waiting\<close>, with the state it has
  then. While it waits the lock is free; once another operation has run, the woken
  \<^verbatim>\<open>Pop\<close> goes on as a \<^verbatim>\<open>Pop\<close> called in the new state does. The loop drops one key
  of the queue at each turn, so it is a recursion on the queue.
\<close>

datatype 'v PopOutcome =
    Waiting "'v HistoricalFIFO"
  | Popped 'v "'v HistoricalFIFO" "'v Entry list"

fun Pop_loop :: "'v HistoricalFIFO \<Rightarrow> string list \<Rightarrow> 'v PopOutcome" where
  "Pop_loop f [] = Waiting (f\<lparr>queue := []\<rparr>)"
| "Pop_loop f (key # q) =
     (case map_of (items f) key of
        None \<Rightarrow> Pop_loop f q
      | Some item \<Rightarrow>
          if Is item (DELETE_EVENT OR POP_EVENT) then Pop_loop f q
          else
            (let v = Value item;
                 popEvent = PlainEntry \<lparr>value = v, event = POP_EVENT\<rparr>
             in Popped (Copy v)
                  (f\<lparr>items := AList.update key popEvent (items f), queue := q\<rparr>)
                  (carrier (Some popEvent))))"

definition Pop :: "'v HistoricalFIFO \<Rightarrow> 'v PopOutcome" where
  "Pop f = Pop_loop f (queue f)"

subsection \<open>Replace\<close>

text \<open>
  The first loop ranges over \<^verbatim>\<open>f.items\<close> and assigns only to the key it is at. The
  second ranges over \<^verbatim>\<open>idToObj\<close>; \<open>clock i\<close> is the pair of readings of the clock in
  the \<open>i\<close>-th call of \<^verbatim>\<open>merge\<close> (its own, and that of \<^verbatim>\<open>gc\<close> if it runs).
\<close>

fun Replace_mark ::
  "Time \<Rightarrow> Duration \<Rightarrow> (string \<times> 'v) list \<Rightarrow> (string \<times> 'v Entry) list
     \<Rightarrow> (string \<times> 'v Entry) list \<times> 'v Entry list
     \<Rightarrow> error + ((string \<times> 'v Entry) list \<times> 'v Entry list)" where
  "Replace_mark now ttl idToObj [] acc = Inr acc"
| "Replace_mark now ttl idToObj ((key, v) # rest) (its, notifications) =
     (if map_of idToObj key = None \<and> \<not> Is v DELETE_EVENT then
        (case v of
           DeletedEntry ent t \<Rightarrow> Inl TypeAssertionPanic
         | PlainEntry ent \<Rightarrow>
             (let e = DeletedEntry (ent\<lparr>event := DELETE_EVENT\<rparr>) (now + ttl)
              in Replace_mark now ttl idToObj rest
                   (AList.update key e its, notifications @ [e])))
      else Replace_mark now ttl idToObj rest (its, notifications))"

fun Replace_merge ::
  "('v \<Rightarrow> string) \<Rightarrow> (nat \<Rightarrow> Time \<times> Time) \<Rightarrow> nat \<Rightarrow> (string \<times> 'v) list
     \<Rightarrow> 'v HistoricalFIFO \<times> 'v Entry list
     \<Rightarrow> error + ('v HistoricalFIFO \<times> 'v Entry list)" where
  "Replace_merge uid clock i [] acc = Inr acc"
| "Replace_merge uid clock i ((key, obj) # rest) (f, notifications) =
     (case merge uid (fst (clock i)) (snd (clock i)) (f\<lparr>queue := queue f @ [key]\<rparr>) key obj of
        Inl err \<Rightarrow> Inl err
      | Inr (f', n) \<Rightarrow> Replace_merge uid clock (Suc i) rest (f', notifications @ n))"

definition Replace ::
  "('v \<Rightarrow> string) \<Rightarrow> Time \<Rightarrow> (nat \<Rightarrow> Time \<times> Time) \<Rightarrow> 'v HistoricalFIFO
     \<Rightarrow> (string \<times> 'v) list \<Rightarrow> error + ('v HistoricalFIFO \<times> 'v Entry list)" where
  "Replace uid now clock f idToObj =
     (case Replace_mark now (lingerTTL f) idToObj (items f) (items f, []) of
        Inl err \<Rightarrow> Inl err
      | Inr (its, notifications) \<Rightarrow>
          (case Replace_merge uid clock 0 idToObj
                  (f\<lparr>items := its, queue := []\<rparr>, notifications) of
             Inl err \<Rightarrow> Inl err
           | Inr (f', notifications') \<Rightarrow> Inr (f', deliver notifications')))"

subsection \<open>Well-formed states and the words of the specification\<close>

text \<open>
  The code wraps an entry in a \<^verbatim>\<open>deletedEntry\<close> exactly when it tags it Delete. A state
  is well formed when this holds of every entry and the keys of \<open>items\<close> are distinct
  (it is a map). \<open>NewFIFO\<close> is well formed and every operation keeps a state so; on
  a well-formed state no type assertion fails.
\<close>

definition wf_Entry :: "'v Entry \<Rightarrow> bool" where
  "wf_Entry e =
     (case e of
        PlainEntry en \<Rightarrow> \<not> Is e DELETE_EVENT
      | DeletedEntry en t \<Rightarrow> Is e DELETE_EVENT)"

definition well_formed :: "'v HistoricalFIFO \<Rightarrow> bool" where
  "well_formed f = (distinct (map fst (items f)) \<and> list_all wf_Entry (map snd (items f)))"

text \<open>"A tombstone whose expiration has passed", and the keys that hold one.\<close>

definition expired :: "Time \<Rightarrow> 'v Entry \<Rightarrow> bool" where
  "expired now e =
     (case e of
        PlainEntry en \<Rightarrow> False
      | DeletedEntry en expiration \<Rightarrow> Is e DELETE_EVENT \<and> expiration < now)"

definition reclaimed :: "Time \<Rightarrow> (string \<times> 'v Entry) list \<Rightarrow> string \<Rightarrow> bool" where
  "reclaimed now its key = (case map_of its key of None \<Rightarrow> False | Some e \<Rightarrow> expired now e)"

definition reclaim_set :: "Time \<Rightarrow> (string \<times> 'v Entry) list \<Rightarrow> string set" where
  "reclaim_set now its = {k. \<exists>e. (k, e) \<in> set its \<and> expired now e}"

text \<open>The sweep in the words of the specification: expired tombstones leave the map,
  their keys leave the pending sequence, the rest keeps its order.\<close>

definition sweep :: "Time \<Rightarrow> 'v HistoricalFIFO \<Rightarrow> 'v HistoricalFIFO" where
  "sweep now f =
     f\<lparr>items := filter (\<lambda>(k, e). \<not> expired now e) (items f),
       queue := filter (\<lambda>k. \<not> reclaimed now (items f) k) (queue f)\<rparr>"

text \<open>An entry the read operations show: tagged neither Delete nor Pop.\<close>

definition live :: "'v HistoricalFIFO \<Rightarrow> string \<Rightarrow> bool" where
  "live f key =
     (case map_of (items f) key of
        None \<Rightarrow> False
      | Some e \<Rightarrow> \<not> Is e DELETE_EVENT \<and> \<not> Is e POP_EVENT)"

text \<open>The state in which \<^verbatim>\<open>Add\<close> calls \<^verbatim>\<open>merge\<close>: the key is appended to the queue
  unless it has an entry tagged neither Delete nor Pop.\<close>

definition enqueue_unless_live :: "'v HistoricalFIFO \<Rightarrow> string \<Rightarrow> 'v HistoricalFIFO" where
  "enqueue_unless_live f key = (if live f key then f else f\<lparr>queue := queue f @ [key]\<rparr>)"

subsection \<open>Sequences of operations\<close>

text \<open>
  The operations that change the state, with the readings of the clock each call makes.
  A step runs one of them to its end under the lock and keeps the state; a \<^verbatim>\<open>Pop\<close> that
  has to wait leaves the state it waits in. A panic ends the run.
\<close>

datatype 'v Op =
    OpAdd string 'v Time Time
  | OpUpdate string 'v Time Time
  | OpReadd string 'v EventType Time Time
  | OpDelete string Time
  | OpPop
  | OpReplace "(string \<times> 'v) list" Time "nat \<Rightarrow> Time \<times> Time"

fun step :: "('v \<Rightarrow> string) \<Rightarrow> 'v Op \<Rightarrow> 'v HistoricalFIFO \<Rightarrow> error + 'v HistoricalFIFO" where
  "step uid (OpAdd key obj now gcnow) f =
     (case Add uid now gcnow f key obj of Inl err \<Rightarrow> Inl err | Inr (f', ns) \<Rightarrow> Inr f')"
| "step uid (OpUpdate key obj now gcnow) f =
     (case Update uid now gcnow f key obj of Inl err \<Rightarrow> Inl err | Inr (f', ns) \<Rightarrow> Inr f')"
| "step uid (OpReadd key obj t now gcnow) f =
     (case Readd uid now gcnow f key obj t of Inl err \<Rightarrow> Inl err | Inr (f', ns) \<Rightarrow> Inr f')"
| "step uid (OpDelete key now) f =
     (case Delete now f key of Inl err \<Rightarrow> Inl err | Inr (f', ns) \<Rightarrow> Inr f')"
| "step uid OpPop f =
     (case Pop f of Waiting f' \<Rightarrow> Inr f' | Popped v f' ns \<Rightarrow> Inr f')"
| "step uid (OpReplace idToObj now clock) f =
     (case Replace uid now clock f idToObj of Inl err \<Rightarrow> Inl err | Inr (f', ns) \<Rightarrow> Inr f')"

fun run :: "('v \<Rightarrow> string) \<Rightarrow> 'v Op list \<Rightarrow> 'v HistoricalFIFO \<Rightarrow> error + 'v HistoricalFIFO" where
  "run uid [] f = Inr f"
| "run uid (op # ops) f =
     (case step uid op f of Inl err \<Rightarrow> Inl err | Inr f' \<Rightarrow> run uid ops f')"

text \<open>The argument of \<^verbatim>\<open>Replace\<close> is a Go map: its keys are distinct.\<close>

fun wf_Op :: "'v Op \<Rightarrow> bool" where
  "wf_Op (OpReplace idToObj now clock) = distinct (map fst idToObj)"
| "wf_Op op = True"

text \<open>The operations that call \<^verbatim>\<open>merge\<close> for a key, and those that may assign to its
  entry at all.\<close>

fun merges_key :: "string \<Rightarrow> 'v Op \<Rightarrow> bool" where
  "merges_key k (OpAdd key obj now gcnow) = (key = k)"
| "merges_key k (OpUpdate key obj now gcnow) = (key = k)"
| "merges_key k (OpReadd key obj t now gcnow) = (key = k)"
| "merges_key k (OpDelete key now) = False"
| "merges_key k OpPop = False"
| "merges_key k (OpReplace idToObj now clock) = (map_of idToObj k \<noteq> None)"

fun writes_key :: "string \<Rightarrow> 'v Op \<Rightarrow> bool" where
  "writes_key k (OpDelete key now) = (key = k)"
| "writes_key k (OpReplace idToObj now clock) = True"
| "writes_key k op = merges_key k op"

text \<open>The tombstones of the first loop of \<^verbatim>\<open>Replace\<close> in the words of the
  specification: one for every entry whose key is absent from the new state and which
  is not tagged Delete, with the value kept and the expiration \<open>now + ttl\<close>.\<close>

definition Replace_tombstones ::
  "Time \<Rightarrow> Duration \<Rightarrow> (string \<times> 'v) list \<Rightarrow> (string \<times> 'v Entry) list
     \<Rightarrow> (string \<times> 'v Entry) list" where
  "Replace_tombstones now ttl idToObj its =
     map (\<lambda>(k, v). (k, DeletedEntry ((entry_of v)\<lparr>event := DELETE_EVENT\<rparr>) (now + ttl)))
       (filter (\<lambda>(k, v). map_of idToObj k = None \<and> \<not> Is v DELETE_EVENT) its)"

text \<open>The state after the first loop of \<^verbatim>\<open>Replace\<close>: the tombstones are stored under their
  keys and the pending sequence is empty.\<close>

definition Replace_marked ::
  "Time \<Rightarrow> (string \<times> 'v) list \<Rightarrow> 'v HistoricalFIFO \<Rightarrow> 'v HistoricalFIFO" where
  "Replace_marked now idToObj f =
     f\<lparr>items := foldl (\<lambda>a (k, e). AList.update k e a) (items f)
                  (Replace_tombstones now (lingerTTL f) idToObj (items f)),
       queue := []\<rparr>"

text \<open>A key that is invisible because it was deleted: its entry is a tombstone of the
  value \<open>v\<close>, or the sweep has removed it.\<close>

definition tombstone_or_gone :: "'v HistoricalFIFO \<Rightarrow> string \<Rightarrow> 'v \<Rightarrow> bool" where
  "tombstone_or_gone f key v =
     (case map_of (items f) key of
        None \<Rightarrow> True
      | Some e \<Rightarrow> Is e DELETE_EVENT \<and> Value e = v)"

subsection \<open>Example states\<close>

text \<open>Concrete values are pairs of a unique identifier and a payload; \<^verbatim>\<open>GetUID\<close> is
  \<open>fst\<close>.\<close>

definition w8 :: "(string \<times> int) HistoricalFIFO" where
  "w8 = \<lparr>items = [(''K'', PlainEntry \<lparr>value = (''u1'', 1), event = ADD_EVENT\<rparr>)],
         queue = [''K''], gcc = 1, lingerTTL = 5 * Minute\<rparr>"

definition c7 :: "(string \<times> int) HistoricalFIFO" where
  "c7 = \<lparr>items = [(''A'', DeletedEntry \<lparr>value = (''u1'', 1), event = DELETE_EVENT\<rparr> 5),
                  (''B'', PlainEntry \<lparr>value = (''u2'', 2), event = ADD_EVENT\<rparr>)],
         queue = [''A'', ''B'', ''A''], gcc = 255, lingerTTL = 5 * Minute\<rparr>"

definition c9 :: "(string \<times> int) HistoricalFIFO" where
  "c9 = \<lparr>items = [(''K'', DeletedEntry \<lparr>value = (''u1'', 1), event = DELETE_EVENT\<rparr> (5 * Minute))],
         queue = [], gcc = 255, lingerTTL = 5 * Minute\<rparr>"

definition r5 :: "(string \<times> int) HistoricalFIFO" where
  "r5 = \<lparr>items = [(''K'', DeletedEntry \<lparr>value = (''u1'', 1), event = DELETE_EVENT\<rparr> (5 * Minute))],
         queue = [], gcc = 2, lingerTTL = 5 * Minute\<rparr>"

definition u5 :: "(string \<times> int) HistoricalFIFO" where
  "u5 = \<lparr>items = [(''K'', PlainEntry \<lparr>value = (''u1'', 1), event = UPDATE_EVENT\<rparr>)],
         queue = [''K''], gcc = 2, lingerTTL = 5 * Minute\<rparr>"

definition p8 :: "(string \<times> int) HistoricalFIFO" where
  "p8 = \<lparr>items = [(''K'', PlainEntry \<lparr>value = (''u1'', 1), event = POP_EVENT\<rparr>)],
         queue = [], gcc = 1, lingerTTL = 5 * Minute\<rparr>"

definition c9_clock :: "nat \<Rightarrow> Time \<times> Time" where
  "c9_clock i = (6 * Minute, 6 * Minute)"

definition p10 :: "(string \<times> int) HistoricalFIFO" where
  "p10 = \<lparr>items = [(''K'', PlainEntry \<lparr>value = (''u1'', 1), event = POP_EVENT\<rparr>)],
          queue = [], gcc = 255, lingerTTL = 5 * Minute\<rparr>"

definition d6 :: "(string \<times> int) HistoricalFIFO" where
  "d6 = \<lparr>items = [(''K'', DeletedEntry \<lparr>value = (''u1'', 1), event = DELETE_EVENT\<rparr> (5 * Minute))],
         queue = [''K''], gcc = 1, lingerTTL = 5 * Minute\<rparr>"

definition d6_ops :: "(string \<times> int) Op list" where
  "d6_ops = [OpPop, OpAdd ''J'' (''u2'', 2) 1 1, OpDelete ''K'' 2,
             OpReplace [(''J'', (''u2'', 3))] 3 (\<lambda>i. (3, 3))]"

definition d6_after :: "(string \<times> int) HistoricalFIFO" where
  "d6_after =
     \<lparr>items = [(''K'', DeletedEntry \<lparr>value = (''u1'', 1), event = DELETE_EVENT\<rparr> (5 * Minute)),
               (''J'', PlainEntry \<lparr>value = (''u2'', 3), event = UPDATE_EVENT\<rparr>)],
      queue = [''J''], gcc = 3, lingerTTL = 5 * Minute\<rparr>"




section \<open>Basic facts\<close>

lemma Copy_simp [simp]: "Copy v = v"
  by (simp add: Copy_def)

lemma DeepEqual_simp [simp]: "DeepEqual a b = (a = b)"
  by (simp add: DeepEqual_def)

lemma entry_Copy_simp [simp]: "entry_Copy e = e"
  by (simp add: entry_Copy_def)

lemma Entry_Copy_simp [simp]: "Entry_Copy e = e"
  by (cases e) simp_all

lemma deliver_simp [simp]: "deliver ns = ns"
  by (induction ns) (simp_all add: deliver_def)

lemma Is_or: "Is e (a OR b) = (Is e a \<or> Is e b)"
  by (simp add: Is_def bit.conj_disj_distrib2 or_eq_0_iff)

lemma Is_consts [simp]:
  "\<not> Is (PlainEntry \<lparr>value = v, event = ADD_EVENT\<rparr>) DELETE_EVENT"
  "\<not> Is (PlainEntry \<lparr>value = v, event = UPDATE_EVENT\<rparr>) DELETE_EVENT"
  "\<not> Is (PlainEntry \<lparr>value = v, event = POP_EVENT\<rparr>) DELETE_EVENT"
  "\<not> Is (PlainEntry \<lparr>value = v, event = ADD_EVENT\<rparr>) POP_EVENT"
  "\<not> Is (PlainEntry \<lparr>value = v, event = UPDATE_EVENT\<rparr>) POP_EVENT"
  "Is (PlainEntry \<lparr>value = v, event = POP_EVENT\<rparr>) POP_EVENT"
  "Is (DeletedEntry (en\<lparr>event := DELETE_EVENT\<rparr>) t) DELETE_EVENT"
  "Is (DeletedEntry \<lparr>value = v, event = DELETE_EVENT\<rparr> t) DELETE_EVENT"
  by (simp_all add: Is_def ADD_EVENT_def UPDATE_EVENT_def DELETE_EVENT_def POP_EVENT_def)

lemma wf_Entry_simps [simp]:
  "wf_Entry (PlainEntry en) = (\<not> Is (PlainEntry en) DELETE_EVENT)"
  "wf_Entry (DeletedEntry en t) = Is (DeletedEntry en t) DELETE_EVENT"
  by (simp_all add: wf_Entry_def)

lemma expired_simps [simp]:
  "expired now (PlainEntry en) = False"
  "expired now (DeletedEntry en t) = (Is (DeletedEntry en t) DELETE_EVENT \<and> t < now)"
  by (simp_all add: expired_def)

lemma expired_Is: "expired now e \<Longrightarrow> Is e DELETE_EVENT"
  by (cases e) simp_all

section \<open>The garbage collector computes the sweep\<close>

lemma reclaim_set_Nil [simp]: "reclaim_set now [] = {}"
  by (simp add: reclaim_set_def)

lemma reclaim_set_Cons [simp]:
  "reclaim_set now ((k, v) # its) =
     (if expired now v then insert k (reclaim_set now its) else reclaim_set now its)"
  by (auto simp: reclaim_set_def)

lemma reclaim_set_iff:
  assumes "distinct (map fst its)"
  shows "(k \<in> reclaim_set now its) = reclaimed now its k"
proof -
  have "(k \<in> reclaim_set now its) = (\<exists>e. map_of its k = Some e \<and> expired now e)"
    by (simp add: reclaim_set_def map_of_eq_Some_iff [OF assms])
  also have "\<dots> = reclaimed now its k"
    by (cases "map_of its k") (simp_all add: reclaimed_def)
  finally show ?thesis .
qed

lemma reclaim_set_member:
  "distinct (map fst its) \<Longrightarrow> (k, e) \<in> set its \<Longrightarrow> (k \<in> reclaim_set now its) = expired now e"
  by (simp add: reclaim_set_iff reclaimed_def map_of_is_SomeI)

lemma filter_delete_reclaim:
  "filter (\<lambda>(k, e). k \<notin> R) (AList.delete key its) = filter (\<lambda>(k, e). k \<notin> insert key R) its"
  by (induction its) (auto simp: AList.delete_eq)

lemma gc_scan_result:
  "list_all wf_Entry (map snd snap) \<Longrightarrow>
   gc_scan now snap (its, del) =
     Inr (filter (\<lambda>(k, e). k \<notin> reclaim_set now snap) its, del \<union> reclaim_set now snap)"
proof (induction snap arbitrary: its del)
  case Nil
  then show ?case by simp
next
  case (Cons p snap)
  obtain key v where p: "p = (key, v)" by (cases p)
  have wf: "wf_Entry v" and wfs: "list_all wf_Entry (map snd snap)"
    using Cons.prems by (simp_all add: p)
  show ?case
  proof (cases v)
    case (PlainEntry en)
    then show ?thesis using wf Cons.IH [OF wfs, of its del] by (simp add: p)
  next
    case (DeletedEntry en t)
    then show ?thesis
      using wf Cons.IH [OF wfs, of its del]
        Cons.IH [OF wfs, of "AList.delete key its" "insert key del"]
      by (simp add: p filter_delete_reclaim)
  qed
qed

lemma filter_reclaim_set:
  assumes "distinct (map fst its)"
  shows "filter (\<lambda>(k, e). k \<notin> reclaim_set now its) its = filter (\<lambda>(k, e). \<not> expired now e) its"
  by (rule filter_cong [OF refl]) (auto simp: reclaim_set_member [OF assms])

lemma gc_result:
  assumes "well_formed f"
  shows "gc now f = Inr (sweep now f)"
proof -
  have d: "distinct (map fst (items f))" and w: "list_all wf_Entry (map snd (items f))"
    using assms by (simp_all add: well_formed_def)
  show ?thesis
    unfolding gc_def gc_scan_result [OF w] filter_reclaim_set [OF d] sweep_def
    by (simp add: reclaim_set_iff [OF d])
qed

section \<open>Well-formed states\<close>

lemma well_formed_NewFIFO: "well_formed NewFIFO"
  by (simp add: well_formed_def NewFIFO_def)

lemma well_formed_sweep: "well_formed f \<Longrightarrow> well_formed (sweep now f)"
  by (simp add: well_formed_def sweep_def distinct_map_filter list_all_iff)

lemma well_formed_fields [simp]:
  "well_formed (f\<lparr>queue := q\<rparr>) = well_formed f"
  "well_formed (f\<lparr>gcc := c\<rparr>) = well_formed f"
  by (simp_all add: well_formed_def)

lemma list_all_update:
  "P e \<Longrightarrow> list_all P (map snd al) \<Longrightarrow> list_all P (map snd (AList.update key e al))"
  by (induction al) auto

lemma well_formed_update:
  "well_formed f \<Longrightarrow> wf_Entry e \<Longrightarrow> well_formed (f\<lparr>items := AList.update key e (items f)\<rparr>)"
  by (simp add: well_formed_def distinct_update list_all_update)

lemma well_formed_lookup:
  "well_formed f \<Longrightarrow> map_of (items f) key = Some e \<Longrightarrow> wf_Entry e"
  by (auto simp: well_formed_def list_all_iff dest: map_of_SomeD)

section \<open>The merge step\<close>

lemma merge_store_absent:
  "map_of (items f) key = None \<Longrightarrow>
   merge_store uid now f key obj =
     Inr (f\<lparr>items := AList.update key (PlainEntry \<lparr>value = obj, event = ADD_EVENT\<rparr>) (items f)\<rparr>,
          [PlainEntry \<lparr>value = obj, event = ADD_EVENT\<rparr>])"
  by (simp add: merge_store_def Let_def)

lemma entry_event_update: "en\<lparr>event := t\<rparr> = \<lparr>value = value en, event = t\<rparr>"
  by (cases en) simp

lemma merge_store_hidden:
  "map_of (items f) key = Some item \<Longrightarrow> wf_Entry item \<Longrightarrow> \<not> Is item DELETE_EVENT \<Longrightarrow>
   uid (Value item) \<noteq> uid obj \<Longrightarrow>
   merge_store uid now f key obj =
     Inr (f\<lparr>items := AList.update key (PlainEntry \<lparr>value = obj, event = ADD_EVENT\<rparr>) (items f)\<rparr>,
          [DeletedEntry \<lparr>value = Value item, event = DELETE_EVENT\<rparr> (now + lingerTTL f),
           PlainEntry \<lparr>value = obj, event = ADD_EVENT\<rparr>])"
  by (cases item) (simp_all add: merge_store_def Value_def Let_def entry_event_update)

lemma merge_store_update:
  "map_of (items f) key = Some item \<Longrightarrow> Is item DELETE_EVENT \<or> uid (Value item) = uid obj \<Longrightarrow>
   obj \<noteq> Value item \<Longrightarrow>
   merge_store uid now f key obj =
     Inr (f\<lparr>items := AList.update key (PlainEntry \<lparr>value = obj, event = UPDATE_EVENT\<rparr>) (items f)\<rparr>,
          [PlainEntry \<lparr>value = obj, event = UPDATE_EVENT\<rparr>])"
  by (auto simp add: merge_store_def Let_def)

lemma merge_store_same:
  "map_of (items f) key = Some item \<Longrightarrow> Is item DELETE_EVENT \<or> uid (Value item) = uid obj \<Longrightarrow>
   obj = Value item \<Longrightarrow>
   merge_store uid now f key obj = Inr (f, [])"
  by (auto simp add: merge_store_def)

text \<open>What a store step can do, in one statement.\<close>

lemma merge_store_cases:
  assumes "well_formed f"
  obtains
    (unchanged) item where "map_of (items f) key = Some item" "obj = Value item"
      "Is item DELETE_EVENT \<or> uid (Value item) = uid obj"
      "merge_store uid now f key obj = Inr (f, [])"
  | (stored) e ns where "wf_Entry e" "\<not> Is e DELETE_EVENT" "\<not> Is e POP_EVENT" "Value e = obj"
      "merge_store uid now f key obj = Inr (f\<lparr>items := AList.update key e (items f)\<rparr>, ns)"
proof (cases "map_of (items f) key")
  case None
  show ?thesis
    by (rule stored [of "PlainEntry \<lparr>value = obj, event = ADD_EVENT\<rparr>"])
       (simp_all add: merge_store_absent [OF None] Value_def)
next
  case (Some item)
  have wi: "wf_Entry item" by (rule well_formed_lookup [OF assms Some])
  show ?thesis
  proof (cases "\<not> Is item DELETE_EVENT \<and> uid (Value item) \<noteq> uid obj")
    case True
    show ?thesis
      by (rule stored [of "PlainEntry \<lparr>value = obj, event = ADD_EVENT\<rparr>"])
         (use True in \<open>simp_all add: merge_store_hidden [OF Some wi] Value_def\<close>)
  next
    case False
    then have c: "Is item DELETE_EVENT \<or> uid (Value item) = uid obj" by blast
    show ?thesis
    proof (cases "obj = Value item")
      case True
      show ?thesis by (rule unchanged [OF Some True c merge_store_same [OF Some c True]])
    next
      case False
      show ?thesis
        by (rule stored [of "PlainEntry \<lparr>value = obj, event = UPDATE_EVENT\<rparr>"])
           (simp_all add: merge_store_update [OF Some c False] Value_def)
    qed
  qed
qed

lemma merge_gc_result:
  "well_formed f \<Longrightarrow>
   merge_gc gcnow f =
     Inr (if (gcc f + 1) mod 256 = 0 then sweep gcnow (f\<lparr>gcc := 0\<rparr>) else f\<lparr>gcc := gcc f + 1\<rparr>)"
  by (simp add: merge_gc_def Let_def gc_result)


lemma merge_store_total:
  assumes "well_formed f"
  shows "\<exists>f1 ns. merge_store uid now f key obj = Inr (f1, ns)"
  by (rule merge_store_cases [OF assms, of key obj uid now]) blast+

lemma merge_store_frame:
  assumes "well_formed f" "merge_store uid now f key obj = Inr (f1, ns)"
  shows "well_formed f1" "gcc f1 = gcc f" "queue f1 = queue f" "lingerTTL f1 = lingerTTL f"
proof -
  have "well_formed f1 \<and> gcc f1 = gcc f \<and> queue f1 = queue f \<and> lingerTTL f1 = lingerTTL f"
  proof (rule merge_store_cases [OF assms(1), of key obj uid now])
    fix item assume "merge_store uid now f key obj = Inr (f, [])"
    with assms show ?thesis by simp
  next
    fix e ns'
    assume "wf_Entry e"
      and "merge_store uid now f key obj = Inr (f\<lparr>items := AList.update key e (items f)\<rparr>, ns')"
    with assms show ?thesis by (auto simp: well_formed_update)
  qed
  then show "well_formed f1" "gcc f1 = gcc f" "queue f1 = queue f" "lingerTTL f1 = lingerTTL f"
    by simp_all
qed

lemma merge_result:
  assumes "well_formed f" "merge_store uid now f key obj = Inr (f1, ns)"
  shows "merge uid now gcnow f key obj =
     Inr (if (gcc f + 1) mod 256 = 0 then sweep gcnow (f1\<lparr>gcc := 0\<rparr>)
          else f1\<lparr>gcc := gcc f + 1\<rparr>, ns)"
  using merge_store_frame [OF assms]
  by (simp add: merge_def assms(2) merge_gc_result)

section \<open>Delete\<close>

text \<open>
  C8. Delete never modifies the pending sequence. If the key is absent or its entry is
  already tagged Delete, \<open>items\<close> is unchanged and nothing is delivered. Otherwise the
  only change to \<open>items\<close> is under the key: its entry, tagged Delete with its value
  kept, wrapped as a tombstone that expires at \<open>now + lingerTTL\<close>; the tombstone is
  what the carrier receives.
\<close>

theorem Delete_frame:
  assumes "well_formed f"
  shows "\<exists>f' ns. Delete now f key = Inr (f', ns) \<and>
           queue f' = queue f \<and> gcc f' = gcc f \<and> lingerTTL f' = lingerTTL f \<and>
           (case map_of (items f) key of
              None \<Rightarrow> items f' = items f \<and> ns = []
            | Some item \<Rightarrow>
                if Is item DELETE_EVENT then items f' = items f \<and> ns = []
                else map_of (items f') =
                       (map_of (items f))(key \<mapsto>
                          DeletedEntry ((entry_of item)\<lparr>event := DELETE_EVENT\<rparr>) (now + lingerTTL f))
                     \<and> map fst (items f') = map fst (items f)
                     \<and> ns = [DeletedEntry ((entry_of item)\<lparr>event := DELETE_EVENT\<rparr>)
                               (now + lingerTTL f)])"
proof (cases "map_of (items f) key")
  case None
  then show ?thesis by (simp add: Delete_def)
next
  case (Some item)
  have wi: "wf_Entry item" by (rule well_formed_lookup [OF assms Some])
  have k: "key \<in> set (map fst (items f))"
    using Some by (metis map_of_eq_None_iff option.distinct(1) set_map)
  show ?thesis
  proof (cases item)
    case (PlainEntry en)
    then show ?thesis using Some wi k
      by (simp add: Delete_def Let_def update_conv' update_keys)
  next
    case (DeletedEntry en t)
    then show ?thesis using Some wi by (simp add: Delete_def)
  qed
qed

text \<open>Deleting the one live key of a state.\<close>

theorem Delete_frame_witness:
  "well_formed w8 \<and>
   Delete 7 w8 ''K'' =
     Inr (w8\<lparr>items := [(''K'', DeletedEntry \<lparr>value = (''u1'', 1), event = DELETE_EVENT\<rparr>
                                  (7 + 5 * Minute))]\<rparr>,
          [DeletedEntry \<lparr>value = (''u1'', 1), event = DELETE_EVENT\<rparr> (7 + 5 * Minute)]) \<and>
   (\<exists>f' ns. Delete 7 w8 ''K'' = Inr (f', ns) \<and> queue f' = [''K''] \<and>
      map_of (items f') ''K'' =
        Some (DeletedEntry \<lparr>value = (''u1'', 1), event = DELETE_EVENT\<rparr> (7 + 5 * Minute)))"
proof -
  have h: "well_formed w8" by (simp add: well_formed_def w8_def)
  have e: "map_of (items w8) ''K'' = Some (PlainEntry \<lparr>value = (''u1'', 1), event = ADD_EVENT\<rparr>)"
    by (simp add: w8_def)
  have d: "Delete 7 w8 ''K'' =
     Inr (w8\<lparr>items := [(''K'', DeletedEntry \<lparr>value = (''u1'', 1), event = DELETE_EVENT\<rparr>
                                  (7 + 5 * Minute))]\<rparr>,
          [DeletedEntry \<lparr>value = (''u1'', 1), event = DELETE_EVENT\<rparr> (7 + 5 * Minute)])"
    by (simp add: Delete_def w8_def Let_def)
  from Delete_frame [OF h, of 7 "''K''"] e h d show ?thesis 
    by (auto simp add: w8_def)
qed

section \<open>Sweeps and merges on well-formed states\<close>

lemma map_of_filter_None:
  "k \<notin> fst ` set xs \<Longrightarrow> map_of (filter Q xs) k = None"
  by (auto simp: map_of_eq_None_iff)

lemma map_of_filter_snd:
  "distinct (map fst xs) \<Longrightarrow>
   map_of (filter (\<lambda>(k, e). P e) xs) k =
     (case map_of xs k of None \<Rightarrow> None | Some e \<Rightarrow> if P e then Some e else None)"
proof (induction xs)
  case Nil
  then show ?case by simp
next
  case (Cons x xs)
  obtain k0 e0 where x: "x = (k0, e0)" by (cases x)
  have notin: "map_of xs k0 = None"
    using Cons.prems by (simp add: x map_of_eq_None_iff)
  show ?case
    using Cons notin by (simp add: x map_of_filter_None)
qed

lemma map_of_sweep:
  "well_formed f \<Longrightarrow>
   map_of (items (sweep now f)) k =
     (case map_of (items f) k of None \<Rightarrow> None
      | Some e \<Rightarrow> if expired now e then None else Some e)"
  by (simp add: sweep_def well_formed_def map_of_filter_snd split: option.splits)

lemma sweep_gcc [simp]: "sweep now (f\<lparr>gcc := c\<rparr>) = (sweep now f)\<lparr>gcc := c\<rparr>"
  by (simp add: sweep_def)

lemma sweep_fields [simp]:
  "gcc (sweep now f) = gcc f" "lingerTTL (sweep now f) = lingerTTL f"
  "queue (sweep now f) = filter (\<lambda>k. \<not> reclaimed now (items f) k) (queue f)"
  by (simp_all add: sweep_def)

lemma count_list_filter:
  "count_list (filter P xs) k = (if P k then count_list xs k else 0)"
  by (induction xs) auto

lemma count_list_filter_le: "count_list (filter P xs) k \<le> count_list xs k"
  by (simp add: count_list_filter)

lemma merge_gc_effect:
  assumes "well_formed f"
  shows "\<exists>f'. merge_gc gcnow f = Inr f' \<and> well_formed f' \<and> lingerTTL f' = lingerTTL f \<and>
            gcc f' = (if (gcc f + 1) mod 256 = 0 then 0 else gcc f + 1) \<and>
            items f' = (if (gcc f + 1) mod 256 = 0 then items (sweep gcnow f) else items f) \<and>
            queue f' = (if (gcc f + 1) mod 256 = 0 then queue (sweep gcnow f) else queue f)"
  using assms by (simp add: merge_gc_result well_formed_sweep)


lemma merge_effect:
  assumes "well_formed f"
  shows "\<exists>f1 ns f'. merge_store uid now f key obj = Inr (f1, ns) \<and>
            merge uid now gcnow f key obj = Inr (f', ns) \<and>
            well_formed f1 \<and> well_formed f' \<and> lingerTTL f' = lingerTTL f \<and>
            gcc f' = (if (gcc f + 1) mod 256 = 0 then 0 else gcc f + 1) \<and>
            items f' = (if (gcc f + 1) mod 256 = 0 then items (sweep gcnow f1) else items f1) \<and>
            queue f' = (if (gcc f + 1) mod 256 = 0
                        then filter (\<lambda>k. \<not> reclaimed gcnow (items f1) k) (queue f)
                        else queue f)"
proof -
  obtain f1 ns where ms: "merge_store uid now f key obj = Inr (f1, ns)"
    using merge_store_total [OF assms] by blast
  note fr = merge_store_frame [OF assms ms]
  let ?f' = "if (gcc f + 1) mod 256 = 0 then sweep gcnow (f1\<lparr>gcc := 0\<rparr>)
             else f1\<lparr>gcc := gcc f + 1\<rparr>"
  have m: "merge uid now gcnow f key obj = Inr (?f', ns)"
    by (rule merge_result [OF assms ms])
  have 1: "well_formed ?f'" using fr(1) by (simp add: well_formed_sweep)
  have 2: "lingerTTL ?f' = lingerTTL f" using fr(4) by simp
  have 3: "gcc ?f' = (if (gcc f + 1) mod 256 = 0 then 0 else gcc f + 1)" by simp
  have 4: "items ?f' = (if (gcc f + 1) mod 256 = 0 then items (sweep gcnow f1) else items f1)"
    by simp
  have 5: "queue ?f' = (if (gcc f + 1) mod 256 = 0
                        then filter (\<lambda>k. \<not> reclaimed gcnow (items f1) k) (queue f)
                        else queue f)"
    using fr(3) by simp
  from ms m fr(1) 1 2 3 4 5 show ?thesis by blast
qed

lemma counter_mod:
  "0 \<le> (c::int) \<Longrightarrow> c < 256 \<Longrightarrow> (c + 1) mod 256 = (if c = 255 then 0 else c + 1)"
  by (cases "c = 255") (simp_all add: mod_pos_pos_trivial)

section \<open>The counter and the sweep\<close>

text \<open>
  C7. On a well-formed state \<^verbatim>\<open>gc\<close> removes from \<open>items\<close> exactly the Delete-tagged
  entries whose expiration is before its reading of the clock, and keeps of the
  pending sequence, in order, exactly the keys it did not reclaim. Every merge adds one
  to the counter; when the sum is a multiple of 256 the counter is reset and the state
  is swept. With the counter in \<open>0..255\<close>, as it is from \<open>NewFIFO\<close> on, it counts the
  merges modulo 256 and the sweep runs exactly on the step from 255.
\<close>

theorem merge_counts_and_sweeps:
  assumes "well_formed f"
  shows "gc gcnow f =
           Inr (f\<lparr>items := filter (\<lambda>(k, e). \<not> expired gcnow e) (items f),
                  queue := filter (\<lambda>k. \<not> reclaimed gcnow (items f) k) (queue f)\<rparr>) \<and>
         (\<exists>f1 ns f'. merge_store uid now f key obj = Inr (f1, ns) \<and>
            merge uid now gcnow f key obj = Inr (f', ns) \<and>
            f' = (if (gcc f + 1) mod 256 = 0 then sweep gcnow (f1\<lparr>gcc := 0\<rparr>)
                  else f1\<lparr>gcc := gcc f + 1\<rparr>) \<and>
            (0 \<le> gcc f \<and> gcc f < 256 \<longrightarrow>
               gcc f' = (gcc f + 1) mod 256 \<and> ((gcc f + 1) mod 256 = 0) = (gcc f = 255)))"
proof -
  obtain f1 ns where ms: "merge_store uid now f key obj = Inr (f1, ns)"
    using merge_store_total [OF assms] by blast
  let ?f' = "if (gcc f + 1) mod 256 = 0 then sweep gcnow (f1\<lparr>gcc := 0\<rparr>)
             else f1\<lparr>gcc := gcc f + 1\<rparr>"
  have m: "merge uid now gcnow f key obj = Inr (?f', ns)"
    by (rule merge_result [OF assms ms])
  have c: "0 \<le> gcc f \<and> gcc f < 256 \<longrightarrow>
             gcc ?f' = (gcc f + 1) mod 256 \<and> ((gcc f + 1) mod 256 = 0) = (gcc f = 255)"
  proof (intro impI conjI)
    assume r: "0 \<le> gcc f \<and> gcc f < 256"
    then have cm: "(gcc f + 1) mod 256 = (if gcc f = 255 then 0 else gcc f + 1)"
      by (simp add: counter_mod)
    show "gcc ?f' = (gcc f + 1) mod 256"
      using r by (simp add: cm)
    show "((gcc f + 1) mod 256 = 0) = (gcc f = 255)"
      using r by (simp add: cm)
  qed
  have g: "gc gcnow f =
           Inr (f\<lparr>items := filter (\<lambda>(k, e). \<not> expired gcnow e) (items f),
                  queue := filter (\<lambda>k. \<not> reclaimed gcnow (items f) k) (queue f)\<rparr>)"
    unfolding gc_result [OF assms] sweep_def ..
  have "\<exists>f1 ns f'. merge_store uid now f key obj = Inr (f1, ns) \<and>
            merge uid now gcnow f key obj = Inr (f', ns) \<and>
            f' = (if (gcc f + 1) mod 256 = 0 then sweep gcnow (f1\<lparr>gcc := 0\<rparr>)
                  else f1\<lparr>gcc := gcc f + 1\<rparr>) \<and>
            (0 \<le> gcc f \<and> gcc f < 256 \<longrightarrow>
               gcc f' = (gcc f + 1) mod 256 \<and> ((gcc f + 1) mod 256 = 0) = (gcc f = 255))"
    by (rule exI [of _ f1], rule exI [of _ ns], rule exI [of _ ?f'])
       (intro conjI ms m refl c)
  with g show ?thesis by (rule conjI)
qed

text \<open>The 256th merge, with an expired tombstone whose key is pending twice.\<close>

theorem merge_counts_and_sweeps_witness:
  "well_formed c7 \<and>
   gc 10 c7 = Inr (c7\<lparr>items := [(''B'', PlainEntry \<lparr>value = (''u2'', 2), event = ADD_EVENT\<rparr>)],
                      queue := [''B'']\<rparr>) \<and>
   merge fst 10 10 c7 ''C'' (''u3'', 3) =
     Inr (\<lparr>items = [(''B'', PlainEntry \<lparr>value = (''u2'', 2), event = ADD_EVENT\<rparr>),
                    (''C'', PlainEntry \<lparr>value = (''u3'', 3), event = ADD_EVENT\<rparr>)],
           queue = [''B''], gcc = 0, lingerTTL = 5 * Minute\<rparr>,
          [PlainEntry \<lparr>value = (''u3'', 3), event = ADD_EVENT\<rparr>])"
proof -
  have h: "well_formed c7" by (simp add: well_formed_def c7_def)
  have ms: "merge_store fst 10 c7 ''C'' (''u3'', 3) =
     Inr (c7\<lparr>items := items c7 @ [(''C'', PlainEntry \<lparr>value = (''u3'', 3), event = ADD_EVENT\<rparr>)]\<rparr>,
          [PlainEntry \<lparr>value = (''u3'', 3), event = ADD_EVENT\<rparr>])"
    by (simp add: merge_store_def c7_def Let_def)
  from merge_counts_and_sweeps [OF h, of 10 fst 10 "''C''" "(''u3'', 3)"] h
  show ?thesis
    by (simp add: ms) (simp add: c7_def sweep_def reclaimed_def)
qed

section \<open>Add and Readd as merges\<close>

lemma merge_lookup:
  assumes "well_formed f" "merge_store uid now f key obj = Inr (f1, ns)"
  shows "\<exists>f'. merge uid now gcnow f key obj = Inr (f', ns) \<and>
           (\<forall>k. map_of (items f') k =
              (if (gcc f + 1) mod 256 = 0
               then (case map_of (items f1) k of None \<Rightarrow> None
                     | Some e \<Rightarrow> if expired gcnow e then None else Some e)
               else map_of (items f1) k))"
proof -
  have w1: "well_formed f1" by (rule merge_store_frame(1) [OF assms])
  show ?thesis
    unfolding merge_result [OF assms]
    using w1 by (simp add: map_of_sweep)
qed

lemma enqueue_unless_live_fields [simp]:
  "items (enqueue_unless_live f key) = items f"
  "gcc (enqueue_unless_live f key) = gcc f"
  "lingerTTL (enqueue_unless_live f key) = lingerTTL f"
  "well_formed (enqueue_unless_live f key) = well_formed f"
  by (simp_all add: enqueue_unless_live_def)

lemma sum_case_id:
  "(case r of Inl err \<Rightarrow> Inl err | Inr (f2, ns) \<Rightarrow> Inr (f2, deliver ns)) = r"
  by (cases r) auto

lemma Add_eq_merge:
  "Add uid now gcnow f key obj = merge uid now gcnow (enqueue_unless_live f key) key obj"
  by (cases "map_of (items f) key")
     (simp_all add: Add_def enqueue_unless_live_def live_def Is_or sum_case_id)

lemma Readd_eq_merge:
  "Readd uid now gcnow f key obj t =
     (case map_of (items f) key of
        None \<Rightarrow> merge uid now gcnow f key obj
      | Some entry \<Rightarrow>
          if Is entry t then merge uid now gcnow (enqueue_unless_live f key) key obj
          else Inr (f, []))"
  by (cases "map_of (items f) key")
     (simp_all add: Readd_def enqueue_unless_live_def live_def Is_or sum_case_id Let_def)

section \<open>Hidden delete\<close>

text \<open>
  C2. When the key has an entry that is not tagged Delete and the unique identifier of
  its value differs from that of the incoming value, Add turns the old entry into a
  tombstone (tagged Delete, value kept, expiring at \<open>now + lingerTTL\<close>), stores a new
  Add-tagged entry for the incoming value under the key, and the carrier receives
  exactly two messages, the tombstone first and the new entry second.
\<close>

theorem Add_hidden_delete:
  assumes "well_formed f" and "map_of (items f) key = Some item"
    and "\<not> Is item DELETE_EVENT" and "uid (Value item) \<noteq> uid obj"
  shows "\<exists>f'. Add uid now gcnow f key obj =
              Inr (f', [DeletedEntry \<lparr>value = Value item, event = DELETE_EVENT\<rparr>
                          (now + lingerTTL f),
                        PlainEntry \<lparr>value = obj, event = ADD_EVENT\<rparr>]) \<and>
            map_of (items f') key = Some (PlainEntry \<lparr>value = obj, event = ADD_EVENT\<rparr>)"
proof -
  let ?g = "enqueue_unless_live f key"
  let ?e2 = "PlainEntry \<lparr>value = obj, event = ADD_EVENT\<rparr>"
  have wg: "well_formed ?g" using assms(1) by simp
  have lk: "map_of (items ?g) key = Some item" using assms(2) by simp
  have wi: "wf_Entry item" by (rule well_formed_lookup [OF assms(1,2)])
  have ms: "merge_store uid now ?g key obj =
     Inr (?g\<lparr>items := AList.update key ?e2 (items ?g)\<rparr>,
          [DeletedEntry \<lparr>value = Value item, event = DELETE_EVENT\<rparr> (now + lingerTTL f), ?e2])"
    using merge_store_hidden [OF lk wi assms(3,4), of now] by simp
  obtain f' where m: "merge uid now gcnow ?g key obj =
       Inr (f', [DeletedEntry \<lparr>value = Value item, event = DELETE_EVENT\<rparr> (now + lingerTTL f), ?e2])"
    and look: "\<And>k. map_of (items f') k =
              (if (gcc ?g + 1) mod 256 = 0
               then (case map_of (items (?g\<lparr>items := AList.update key ?e2 (items ?g)\<rparr>)) k of
                       None \<Rightarrow> None
                     | Some e \<Rightarrow> if expired gcnow e then None else Some e)
               else map_of (items (?g\<lparr>items := AList.update key ?e2 (items ?g)\<rparr>)) k)"
    using merge_lookup [OF wg ms, of gcnow] by blast
  have "map_of (items f') key = Some ?e2"
    by (simp add: look update_conv')
  with m show ?thesis by (simp add: Add_eq_merge)
qed

text \<open>Add of a value with identifier \<open>u1\<close>, then of one with identifier \<open>u2\<close>, under the
  same key.\<close>

theorem Add_hidden_delete_witness:
  "Add fst 1 1 NewFIFO ''K'' (''u1'', 1) =
     Inr (w8, [PlainEntry \<lparr>value = (''u1'', 1), event = ADD_EVENT\<rparr>]) \<and>
   well_formed w8 \<and>
   Add fst 9 9 w8 ''K'' (''u2'', 2) =
     Inr (w8\<lparr>items := [(''K'', PlainEntry \<lparr>value = (''u2'', 2), event = ADD_EVENT\<rparr>)],
             gcc := 2\<rparr>,
          [DeletedEntry \<lparr>value = (''u1'', 1), event = DELETE_EVENT\<rparr> (9 + 5 * Minute),
           PlainEntry \<lparr>value = (''u2'', 2), event = ADD_EVENT\<rparr>])"
proof -
  have h: "well_formed w8" by (simp add: well_formed_def w8_def)
  have e: "map_of (items w8) ''K'' = Some (PlainEntry \<lparr>value = (''u1'', 1), event = ADD_EVENT\<rparr>)"
    by (simp add: w8_def)
  have a0: "Add fst 1 1 NewFIFO ''K'' (''u1'', 1) =
     Inr (w8, [PlainEntry \<lparr>value = (''u1'', 1), event = ADD_EVENT\<rparr>])"
    by (simp add: Add_def merge_def merge_store_def merge_gc_def NewFIFO_def w8_def Let_def)
  have a1: "Add fst 9 9 w8 ''K'' (''u2'', 2) =
     Inr (w8\<lparr>items := [(''K'', PlainEntry \<lparr>value = (''u2'', 2), event = ADD_EVENT\<rparr>)],
             gcc := 2\<rparr>,
          [DeletedEntry \<lparr>value = (''u1'', 1), event = DELETE_EVENT\<rparr> (9 + 5 * Minute),
           PlainEntry \<lparr>value = (''u2'', 2), event = ADD_EVENT\<rparr>])"
    by (simp add: Add_def merge_def merge_store_def merge_gc_def w8_def Let_def Is_or Value_def)
  from Add_hidden_delete [OF h e, of fst "(''u2'', 2)" 9 9] a0 h a1
  show ?thesis by (simp add: Value_def)
qed


lemma enqueue_dead:
  "map_of (items f) key = Some item \<Longrightarrow> Is item DELETE_EVENT \<or> Is item POP_EVENT \<Longrightarrow>
   enqueue_unless_live f key = f\<lparr>queue := queue f @ [key]\<rparr>"
  by (auto simp: enqueue_unless_live_def live_def)

lemma not_expired_live: "\<not> Is e DELETE_EVENT \<Longrightarrow> \<not> expired now e"
  using expired_Is by blast

section \<open>Merging into a tombstone\<close>

text \<open>
  C9 as stated fails in its last sentence: when the incoming value equals the
  tombstoned one and this merge is the one that makes the counter a multiple of 256,
  the sweep at the end of the merge reclaims the tombstone if it has expired, so the
  entry does not remain. The state below is reached from \<open>NewFIFO\<close> by an Add and a
  Delete of the key at time 0, 254 more Adds of the same value and a Pop that finds
  only the stale key.
\<close>

theorem tombstone_equal_merge_counterexample:
  "well_formed c9 \<and>
   map_of (items c9) ''K'' =
     Some (DeletedEntry \<lparr>value = (''u1'', 1), event = DELETE_EVENT\<rparr> (5 * Minute)) \<and>
   Add fst (5 * Minute + 1) (5 * Minute + 2) c9 ''K'' (''u1'', 1) =
     Inr (c9\<lparr>items := [], gcc := 0\<rparr>, []) \<and>
   map_of (items (c9\<lparr>items := [], gcc := 0\<rparr>)) ''K'' = None"
  by (simp add: well_formed_def c9_def Add_def merge_def merge_store_def merge_gc_def gc_def
        Let_def Is_or Value_def)

text \<open>
  The merge of a value into a tombstone, as Add and Readd reach it: a value different
  from the tombstoned one is stored as an Update-tagged entry and notified alone,
  whatever the identifiers; an equal value notifies nothing and leaves the tombstone,
  which stays unless the sweep of this very merge reclaims it as expired.
\<close>

lemma tombstone_merge_Add_Readd:
  assumes "well_formed f" and "map_of (items f) key = Some item" and "Is item DELETE_EVENT"
  shows "(\<forall>q. \<exists>f'. merge uid now gcnow (f\<lparr>queue := q\<rparr>) key obj =
             Inr (f', if obj = Value item then []
                      else [PlainEntry \<lparr>value = obj, event = UPDATE_EVENT\<rparr>]) \<and>
             map_of (items f') key =
               (if obj \<noteq> Value item then Some (PlainEntry \<lparr>value = obj, event = UPDATE_EVENT\<rparr>)
                else if (gcc f + 1) mod 256 = 0 \<and> expired gcnow item then None
                else Some item)) \<and>
         Add uid now gcnow f key obj = merge uid now gcnow (f\<lparr>queue := queue f @ [key]\<rparr>) key obj \<and>
         (Is item t \<longrightarrow>
            Readd uid now gcnow f key obj t =
              merge uid now gcnow (f\<lparr>queue := queue f @ [key]\<rparr>) key obj)"
proof (intro conjI allI impI)
  fix q
  let ?g = "f\<lparr>queue := q\<rparr>"
  have wg: "well_formed ?g" using assms(1) by simp
  have lk: "map_of (items ?g) key = Some item" using assms(2) by simp
  show "\<exists>f'. merge uid now gcnow ?g key obj =
             Inr (f', if obj = Value item then []
                      else [PlainEntry \<lparr>value = obj, event = UPDATE_EVENT\<rparr>]) \<and>
             map_of (items f') key =
               (if obj \<noteq> Value item then Some (PlainEntry \<lparr>value = obj, event = UPDATE_EVENT\<rparr>)
                else if (gcc f + 1) mod 256 = 0 \<and> expired gcnow item then None
                else Some item)"
  proof (cases "obj = Value item")
    case True
    have ms: "merge_store uid now ?g key obj = Inr (?g, [])"
      using merge_store_same [OF lk _ True] assms(3) by blast
    from merge_lookup [OF wg ms, of gcnow] show ?thesis
      using True assms(2) by auto
  next
    case False
    let ?e = "PlainEntry \<lparr>value = obj, event = UPDATE_EVENT\<rparr>"
    have ms: "merge_store uid now ?g key obj =
                Inr (?g\<lparr>items := AList.update key ?e (items ?g)\<rparr>, [?e])"
      using merge_store_update [OF lk _ False] assms(3) by blast
    from merge_lookup [OF wg ms, of gcnow] show ?thesis
      using False by (auto simp: update_conv')
  qed
next
  show "Add uid now gcnow f key obj = merge uid now gcnow (f\<lparr>queue := queue f @ [key]\<rparr>) key obj"
    using assms(2,3) by (simp add: Add_eq_merge enqueue_dead)
next
  assume "Is item t"
  then show "Readd uid now gcnow f key obj t =
               merge uid now gcnow (f\<lparr>queue := queue f @ [key]\<rparr>) key obj"
    using assms(2,3) by (simp add: Readd_eq_merge enqueue_dead)
qed


section \<open>The guard of Readd\<close>

text \<open>
  C5 as stated fails in its last part: the mask \<open>ADD_EVENT\<close> does not match an entry
  tagged Delete, so \<^verbatim>\<open>Readd(K, v, ADD_EVENT)\<close> on a tombstone returns at the guard. The
  state, the pending sequence and the carrier are untouched and the key stays
  invisible.
\<close>

theorem Readd_Add_mask_on_tombstone_counterexample:
  "map_of (items r5) ''K'' =
     Some (DeletedEntry \<lparr>value = (''u1'', 1), event = DELETE_EVENT\<rparr> (5 * Minute)) \<and>
   Readd fst 7 8 r5 ''K'' (''u1'', 2) ADD_EVENT = Inr (r5, []) \<and>
   Get r5 ''K'' = None"
  by (simp add: r5_def Readd_def Get_def Is_def Is_or ADD_EVENT_def DELETE_EVENT_def POP_EVENT_def)

lemma queue_after_merge_count:
  assumes "well_formed f" "merge uid now gcnow f key obj = Inr (f', ns)"
    and "\<not> Is e DELETE_EVENT" "map_of (items f') key = Some e"
  shows "count_list (queue f') key = count_list (queue f) key"
proof -
  obtain f1 ns1 f'' where ms: "merge_store uid now f key obj = Inr (f1, ns1)"
    and m: "merge uid now gcnow f key obj = Inr (f'', ns1)"
    and w1: "well_formed f1"
    and it: "items f'' = (if (gcc f + 1) mod 256 = 0 then items (sweep gcnow f1) else items f1)"
    and q: "queue f'' = (if (gcc f + 1) mod 256 = 0
                        then filter (\<lambda>k. \<not> reclaimed gcnow (items f1) k) (queue f)
                        else queue f)"
    using merge_effect [OF assms(1), of uid now key obj gcnow] by blast
  have eq: "f'' = f'" using m assms(2) by simp
  show ?thesis
  proof (cases "(gcc f + 1) mod 256 = 0")
    case False
    then show ?thesis using q eq by simp
  next
    case True
    have "map_of (items (sweep gcnow f1)) key = Some e"
      using it True eq assms(4) by simp
    then have "map_of (items f1) key = Some e"
      by (simp add: map_of_sweep [OF w1] split: option.splits if_splits)
    then have "\<not> reclaimed gcnow (items f1) key"
      using assms(3) by (simp add: reclaimed_def not_expired_live)
    then show ?thesis using q eq True by (simp add: count_list_filter)
  qed
qed

text \<open>
  C5, amended. Readd is a silent no-op whenever the key has an entry that the mask does
  not match; with the mask \<open>ADD_EVENT\<close> that is so for an entry tagged Update and for
  one tagged Delete. A tombstone is revived only under a mask that matches the Delete
  tag, and then, for a value different from the tombstoned one, as an Update-tagged
  entry with the key appended once to the pending sequence.
\<close>

theorem Readd_guard:
  assumes "map_of (items f) key = Some entry"
  shows "(\<not> Is entry t \<longrightarrow> Readd uid now gcnow f key obj t = Inr (f, [])) \<and>
         (event (entry_of entry) = UPDATE_EVENT \<or> event (entry_of entry) = DELETE_EVENT \<longrightarrow>
            Readd uid now gcnow f key obj ADD_EVENT = Inr (f, [])) \<and>
         (well_formed f \<and> Is entry DELETE_EVENT \<and> Is entry t \<and> obj \<noteq> Value entry \<longrightarrow>
            (\<exists>f'. Readd uid now gcnow f key obj t =
                     Inr (f', [PlainEntry \<lparr>value = obj, event = UPDATE_EVENT\<rparr>]) \<and>
                   map_of (items f') key = Some (PlainEntry \<lparr>value = obj, event = UPDATE_EVENT\<rparr>) \<and>
                   count_list (queue f') key = count_list (queue f) key + 1))"
proof (intro conjI impI)
  assume "\<not> Is entry t"
  then show "Readd uid now gcnow f key obj t = Inr (f, [])"
    using assms by (simp add: Readd_eq_merge)
next
  assume ev: "event (entry_of entry) = UPDATE_EVENT \<or> event (entry_of entry) = DELETE_EVENT"
  then have "\<not> Is entry ADD_EVENT"
    by (auto simp: Is_def ADD_EVENT_def UPDATE_EVENT_def DELETE_EVENT_def)
  then show "Readd uid now gcnow f key obj ADD_EVENT = Inr (f, [])"
    using assms by (simp add: Readd_eq_merge)
next
  assume a: "well_formed f \<and> Is entry DELETE_EVENT \<and> Is entry t \<and> obj \<noteq> Value entry"
  let ?g = "f\<lparr>queue := queue f @ [key]\<rparr>"
  let ?e = "PlainEntry \<lparr>value = obj, event = UPDATE_EVENT\<rparr>"
  have wg: "well_formed ?g" using a by simp
  have lk: "map_of (items ?g) key = Some entry" using assms by simp
  have r: "Readd uid now gcnow f key obj t = merge uid now gcnow ?g key obj"
    using assms a by (simp add: Readd_eq_merge enqueue_dead)
  have ms: "merge_store uid now ?g key obj =
              Inr (?g\<lparr>items := AList.update key ?e (items ?g)\<rparr>, [?e])"
    using merge_store_update [OF lk, of uid obj now] a by blast
  obtain f' where m: "merge uid now gcnow ?g key obj = Inr (f', [?e])"
    and look: "map_of (items f') key = Some ?e"
    using merge_lookup [OF wg ms, of gcnow] by (auto simp: update_conv')
  have "count_list (queue f') key = count_list (queue ?g) key"
    by (rule queue_after_merge_count [OF wg m _ look]) simp
  then have "count_list (queue f') key = count_list (queue f) key + 1" by simp
  with r m look
  show "\<exists>f'. Readd uid now gcnow f key obj t = Inr (f', [?e]) \<and>
             map_of (items f') key = Some ?e \<and>
             count_list (queue f') key = count_list (queue f) key + 1"
    by auto
qed


text \<open>The mask \<open>ADD_EVENT\<close> against an Update-tagged entry and against a tombstone; the
  mask \<open>DELETE_EVENT\<close> against the tombstone.\<close>

theorem Readd_guard_witness:
  "map_of (items u5) ''K'' = Some (PlainEntry \<lparr>value = (''u1'', 1), event = UPDATE_EVENT\<rparr>) \<and>
   Readd fst 7 8 u5 ''K'' (''u1'', 2) ADD_EVENT = Inr (u5, []) \<and>
   map_of (items r5) ''K'' =
     Some (DeletedEntry \<lparr>value = (''u1'', 1), event = DELETE_EVENT\<rparr> (5 * Minute)) \<and>
   Readd fst 7 8 r5 ''K'' (''u1'', 2) ADD_EVENT = Inr (r5, []) \<and>
   well_formed r5 \<and>
   Readd fst 7 8 r5 ''K'' (''u1'', 2) DELETE_EVENT =
     Inr (r5\<lparr>items := [(''K'', PlainEntry \<lparr>value = (''u1'', 2), event = UPDATE_EVENT\<rparr>)],
             queue := [''K''], gcc := 3\<rparr>,
          [PlainEntry \<lparr>value = (''u1'', 2), event = UPDATE_EVENT\<rparr>])"
proof -
  have eu: "map_of (items u5) ''K'' = Some (PlainEntry \<lparr>value = (''u1'', 1), event = UPDATE_EVENT\<rparr>)"
    by (simp add: u5_def)
  have er: "map_of (items r5) ''K'' =
     Some (DeletedEntry \<lparr>value = (''u1'', 1), event = DELETE_EVENT\<rparr> (5 * Minute))"
    by (simp add: r5_def)
  have h: "well_formed r5" by (simp add: well_formed_def r5_def)
  have d: "Readd fst 7 8 r5 ''K'' (''u1'', 2) DELETE_EVENT =
     Inr (r5\<lparr>items := [(''K'', PlainEntry \<lparr>value = (''u1'', 2), event = UPDATE_EVENT\<rparr>)],
             queue := [''K''], gcc := 3\<rparr>,
          [PlainEntry \<lparr>value = (''u1'', 2), event = UPDATE_EVENT\<rparr>])"
    by (simp add: r5_def Readd_def merge_def merge_store_def merge_gc_def Let_def Is_or Value_def)
  from Readd_guard [OF eu, of ADD_EVENT fst 7 8 "(''u1'', 2)"]
       Readd_guard [OF er, of ADD_EVENT fst 7 8 "(''u1'', 2)"]
       eu er h d
  show ?thesis by simp
qed

section \<open>The loop of Pop\<close>

lemma live_Is_dead:
  "live f k = (\<exists>e. map_of (items f) k = Some e \<and> \<not> Is e (DELETE_EVENT OR POP_EVENT))"
  by (cases "map_of (items f) k") (simp_all add: live_def Is_or)

lemma Pop_loop_skip: "\<not> live f k \<Longrightarrow> Pop_loop f (k # q) = Pop_loop f q"
  by (cases "map_of (items f) k") (simp_all add: live_def Is_or)

lemma Pop_loop_take:
  "map_of (items f) k = Some item \<Longrightarrow> \<not> Is item (DELETE_EVENT OR POP_EVENT) \<Longrightarrow>
   Pop_loop f (k # q) =
     Popped (Value item)
       (f\<lparr>items := AList.update k (PlainEntry \<lparr>value = Value item, event = POP_EVENT\<rparr>) (items f),
          queue := q\<rparr>)
       [PlainEntry \<lparr>value = Value item, event = POP_EVENT\<rparr>]"
  by (simp add: Let_def)

lemma Pop_loop_wait:
  "(\<forall>k \<in> set q. \<not> live f k) \<Longrightarrow> Pop_loop f q = Waiting (f\<lparr>queue := []\<rparr>)"
  by (induction q) (simp_all add: Pop_loop_skip del: Pop_loop.simps(2))

lemma live_update_same:
  "live (f\<lparr>items := AList.update k e (items f), queue := q\<rparr>) k =
     (\<not> Is e DELETE_EVENT \<and> \<not> Is e POP_EVENT)"
  by (simp add: live_def update_conv')

lemma Pop_loop_queue: "Pop_loop (f\<lparr>queue := q'\<rparr>) q = Pop_loop f q"
  by (induction q) (simp_all add: Let_def split: option.splits)

lemma Pop_Cons_skip: "queue g = k # q \<Longrightarrow> \<not> live g k \<Longrightarrow> Pop g = Pop (g\<lparr>queue := q\<rparr>)"
  by (simp add: Pop_def Pop_loop_skip Pop_loop_queue del: Pop_loop.simps(2))

lemma Pop_loop_Popped_live:
  "Pop_loop f q = Popped v f' ns \<Longrightarrow>
   \<exists>k e. k \<in> set q \<and> map_of (items f) k = Some e \<and> \<not> Is e (DELETE_EVENT OR POP_EVENT) \<and>
         v = Value e \<and> ns = [PlainEntry \<lparr>value = v, event = POP_EVENT\<rparr>] \<and>
         map_of (items f') = (map_of (items f))(k \<mapsto> PlainEntry \<lparr>value = v, event = POP_EVENT\<rparr>)"
proof (induction q)
  case Nil
  then show ?case by simp
next
  case (Cons k q)
  show ?case
  proof (cases "live f k")
    case False
    then have "Pop_loop f q = Popped v f' ns"
      using Cons.prems by (simp add: Pop_loop_skip del: Pop_loop.simps(2))
    from Cons.IH [OF this] show ?thesis by auto
  next
    case True
    then obtain e where e: "map_of (items f) k = Some e" "\<not> Is e (DELETE_EVENT OR POP_EVENT)"
      by (auto simp: live_Is_dead)
    from Cons.prems have r: "v = Value e"
        "f' = f\<lparr>items := AList.update k (PlainEntry \<lparr>value = Value e, event = POP_EVENT\<rparr>) (items f),
                queue := q\<rparr>"
        "ns = [PlainEntry \<lparr>value = Value e, event = POP_EVENT\<rparr>]"
      unfolding Pop_loop_take [OF e] by auto
    show ?thesis
      by (rule exI [of _ k], rule exI [of _ e]) (simp add: r e update_conv')
  qed
qed

lemma Pop_loop_Waiting_iff:
  "(\<exists>g. Pop_loop f q = Waiting g) = (\<forall>k \<in> set q. \<not> live f k)"
proof (induction q)
  case Nil
  then show ?case by simp
next
  case (Cons k q)
  show ?case
  proof (cases "live f k")
    case False
    then show ?thesis using Cons.IH by (simp add: Pop_loop_skip del: Pop_loop.simps(2))
  next
    case True
    then obtain e where e: "map_of (items f) k = Some e" "\<not> Is e (DELETE_EVENT OR POP_EVENT)"
      by (auto simp: live_Is_dead)
    show ?thesis using True by (simp add: Pop_loop_take [OF e] del: Pop_loop.simps(2))
  qed
qed


lemma merge_stores_live:
  assumes "well_formed f"
    and "map_of (items f) key = None \<or> (\<exists>e. map_of (items f) key = Some e \<and> obj \<noteq> Value e)"
  shows "\<exists>f' ns e. merge uid now gcnow f key obj = Inr (f', ns) \<and> well_formed f' \<and>
           map_of (items f') key = Some e \<and> Value e = obj \<and>
           \<not> Is e DELETE_EVENT \<and> \<not> Is e POP_EVENT \<and>
           count_list (queue f') key = count_list (queue f) key"
proof (rule merge_store_cases [OF assms(1), of key obj uid now])
  fix item
  assume "map_of (items f) key = Some item" "obj = Value item"
  with assms(2) show ?thesis by auto
next
  fix e ns
  assume e: "wf_Entry e" "\<not> Is e DELETE_EVENT" "\<not> Is e POP_EVENT" "Value e = obj"
    and ms: "merge_store uid now f key obj = Inr (f\<lparr>items := AList.update key e (items f)\<rparr>, ns)"
  obtain f' where m: "merge uid now gcnow f key obj = Inr (f', ns)"
    and look: "map_of (items f') key = Some e"
    using merge_lookup [OF assms(1) ms, of gcnow] e(2)
    by (auto simp: update_conv' not_expired_live)
  have w: "well_formed f'"
    using merge_effect [OF assms(1), of uid now key obj gcnow] m by auto
  have c: "count_list (queue f') key = count_list (queue f) key"
    by (rule queue_after_merge_count [OF assms(1) m e(2) look])
  from m w look e c show ?thesis by blast
qed

lemma merge_queue_filter:
  assumes "well_formed f" "merge uid now gcnow f key obj = Inr (f', ns)"
  shows "\<exists>P. queue f' = filter P (queue f)"
proof -
  obtain f1 ns1 where ms: "merge_store uid now f key obj = Inr (f1, ns1)"
    using merge_store_total [OF assms(1)] by blast
  have q1: "queue f1 = queue f" by (rule merge_store_frame(3) [OF assms(1) ms])
  have eq: "f' = (if (gcc f + 1) mod 256 = 0 then sweep gcnow (f1\<lparr>gcc := 0\<rparr>)
                  else f1\<lparr>gcc := gcc f + 1\<rparr>)"
    using merge_result [OF assms(1) ms, of gcnow] assms(2) by simp
  show ?thesis
  proof (cases "(gcc f + 1) mod 256 = 0")
    case True
    then have "queue f' = filter (\<lambda>k. \<not> reclaimed gcnow (items f1) k) (queue f)"
      using eq q1 by simp
    then show ?thesis by blast
  next
    case False
    then have "queue f' = filter (\<lambda>k. True) (queue f)" using eq q1 by simp
    then show ?thesis by blast
  qed
qed

lemma queue_singleton_after_merge:
  assumes "well_formed f" "queue f = [key]" "merge uid now gcnow f key obj = Inr (f', ns)"
    and "count_list (queue f') key = 1"
  shows "queue f' = [key]"
proof -
  obtain P where "queue f' = filter P (queue f)"
    using merge_queue_filter [OF assms(1,3)] by blast
  then show ?thesis using assms(2,4) by (cases "P key") simp_all
qed


lemma well_formed_pop_update:
  "well_formed f \<Longrightarrow>
   well_formed (f\<lparr>items := AList.update key (PlainEntry \<lparr>value = v, event = POP_EVENT\<rparr>) (items f),
                  queue := q\<rparr>)"
  by (simp add: well_formed_def distinct_update list_all_update)

lemma Pop_singleton_live:
  assumes "queue g = [k]" "map_of (items g) k = Some e" "\<not> Is e DELETE_EVENT" "\<not> Is e POP_EVENT"
  shows "Pop g = Popped (Value e)
           (g\<lparr>items := AList.update k (PlainEntry \<lparr>value = Value e, event = POP_EVENT\<rparr>) (items g),
              queue := []\<rparr>) [PlainEntry \<lparr>value = Value e, event = POP_EVENT\<rparr>]"
proof -
  have d: "\<not> Is e (DELETE_EVENT OR POP_EVENT)" using assms(3,4) by (simp add: Is_or)
  show ?thesis unfolding Pop_def assms(1) by (rule Pop_loop_take [OF assms(2) d])
qed

lemma Add_absent_then_Pop:
  assumes wf: "well_formed g0" and q0: "queue g0 = []" and ab: "map_of (items g0) key2 = None"
  shows "\<exists>g g'. Add uid now gcnow g0 key2 obj =
                          Inr (g, [PlainEntry \<lparr>value = obj, event = ADD_EVENT\<rparr>]) \<and>
                 Pop g = Popped obj g' [PlainEntry \<lparr>value = obj, event = POP_EVENT\<rparr>]"
proof -
  let ?e = "PlainEntry \<lparr>value = obj, event = ADD_EVENT\<rparr>"
  let ?g1 = "g0\<lparr>queue := [key2]\<rparr>"
  have w1: "well_formed ?g1" using wf by simp
  have ab1: "map_of (items ?g1) key2 = None" using ab by simp
  have enq: "enqueue_unless_live g0 key2 = ?g1"
    using ab q0 by (simp add: enqueue_unless_live_def live_def)
  have ms: "merge_store uid now ?g1 key2 obj =
                Inr (?g1\<lparr>items := AList.update key2 ?e (items ?g1)\<rparr>, [?e])"
    by (rule merge_store_absent [OF ab1])
  obtain g where m: "merge uid now gcnow ?g1 key2 obj = Inr (g, [?e])"
    and look: "map_of (items g) key2 = Some ?e"
    using merge_lookup [OF w1 ms, of gcnow] by (auto simp: update_conv')
  have nd: "\<not> Is ?e DELETE_EVENT" by simp
  have c: "count_list (queue g) key2 = count_list (queue ?g1) key2"
    by (rule queue_after_merge_count [OF w1 m nd look])
  have qg: "queue g = [key2]"
    by (rule queue_singleton_after_merge [OF w1 _ m]) (simp_all add: c)
  have v: "Value ?e = obj" by (simp add: Value_def)
  have np: "\<not> Is ?e POP_EVENT" by simp
  have a: "Add uid now gcnow g0 key2 obj = Inr (g, [?e])"
    unfolding Add_eq_merge enq by (rule m)
  from Pop_singleton_live [OF qg look nd np] a show ?thesis
    unfolding v by blast
qed


lemma Readd_popped_then_Pop:
  assumes wf: "well_formed g0" and q0: "queue g0 = []"
    and lk: "map_of (items g0) key = Some e0" and tag: "Is e0 POP_EVENT"
    and dv: "obj \<noteq> Value e0"
  shows "\<exists>g ns g'. Readd uid now gcnow g0 key obj POP_EVENT = Inr (g, ns) \<and>
                 Pop g = Popped obj g' [PlainEntry \<lparr>value = obj, event = POP_EVENT\<rparr>]"
proof -
  let ?g1 = "g0\<lparr>queue := [key]\<rparr>"
  have w1: "well_formed ?g1" using wf by simp
  have enq: "enqueue_unless_live g0 key = ?g1"
    using enqueue_dead [OF lk] tag q0 by simp
  have rd: "Readd uid now gcnow g0 key obj POP_EVENT = merge uid now gcnow ?g1 key obj"
    unfolding Readd_eq_merge lk enq using tag by simp
  have pre: "map_of (items ?g1) key = None \<or> (\<exists>e. map_of (items ?g1) key = Some e \<and> obj \<noteq> Value e)"
    using lk dv by simp
  obtain g ns e where m: "merge uid now gcnow ?g1 key obj = Inr (g, ns)"
    and look: "map_of (items g) key = Some e" and v: "Value e = obj"
    and nd: "\<not> Is e DELETE_EVENT" and np: "\<not> Is e POP_EVENT"
    and c: "count_list (queue g) key = count_list (queue ?g1) key"
    using merge_stores_live [OF w1 pre, of uid now gcnow] by blast
  have qg: "queue g = [key]"
    by (rule queue_singleton_after_merge [OF w1 _ m]) (simp_all add: c)
  have r: "Readd uid now gcnow g0 key obj POP_EVENT = Inr (g, ns)"
    using rd m by simp
  have p: "\<exists>g'. Pop g = Popped obj g' [PlainEntry \<lparr>value = obj, event = POP_EVENT\<rparr>]"
    using Pop_singleton_live [OF qg look nd np] unfolding v by (rule exI)
  from p obtain g' where "Pop g = Popped obj g' [PlainEntry \<lparr>value = obj, event = POP_EVENT\<rparr>]" ..
  with r show ?thesis by (intro exI conjI)
qed


section \<open>Pop returns a value once\<close>

text \<open>
  What Pop does on the states where it works as its comment says. When every slot of the
  pending sequence holds the one key \<open>key\<close> and its entry is tagged neither Delete nor
  Pop, Pop returns the value of the entry (a copy, equal to it), tags the entry Pop and
  tells the carrier. A second Pop in the state so reached finds nothing to return and
  waits with an empty pending sequence. It returns once an Add has enqueued a key that
  had no entry, or a Readd with the mask \<open>POP_EVENT\<close> has brought a different value
  for the popped key. In any state, Pop drops a head key whose entry is missing or
  tagged Delete or Pop and goes on with the rest; it waits exactly when no pending key
  has an entry tagged neither Delete nor Pop; and a value it returns is that of such an
  entry of a pending key.
\<close>

theorem Pop_exactly_once:
  fixes f :: "'v HistoricalFIFO"
  assumes "set (queue f) = {key}" and "map_of (items f) key = Some item"
    and "\<not> Is item (DELETE_EVENT OR POP_EVENT)"
  shows "(\<exists>f'. Pop f = Popped (Value item) f' [PlainEntry \<lparr>value = Value item, event = POP_EVENT\<rparr>] \<and>
            map_of (items f') =
              (map_of (items f))(key \<mapsto> PlainEntry \<lparr>value = Value item, event = POP_EVENT\<rparr>) \<and>
            Pop f' = Waiting (f'\<lparr>queue := []\<rparr>) \<and>
            (\<forall>uid now gcnow key2 obj.
               well_formed f \<and> map_of (items f) key2 = None \<longrightarrow>
               (\<exists>g g'. Add uid now gcnow (f'\<lparr>queue := []\<rparr>) key2 obj =
                          Inr (g, [PlainEntry \<lparr>value = obj, event = ADD_EVENT\<rparr>]) \<and>
                        Pop g = Popped obj g' [PlainEntry \<lparr>value = obj, event = POP_EVENT\<rparr>])) \<and>
            (\<forall>uid now gcnow obj.
               well_formed f \<and> obj \<noteq> Value item \<longrightarrow>
               (\<exists>g ns g'. Readd uid now gcnow (f'\<lparr>queue := []\<rparr>) key obj POP_EVENT = Inr (g, ns) \<and>
                        Pop g = Popped obj g' [PlainEntry \<lparr>value = obj, event = POP_EVENT\<rparr>]))) \<and>
         (\<forall>(g::'v HistoricalFIFO) k q. queue g = k # q \<and> \<not> live g k \<longrightarrow> Pop g = Pop (g\<lparr>queue := q\<rparr>)) \<and>
         (\<forall>g::'v HistoricalFIFO. (\<exists>g'. Pop g = Waiting g') = (\<forall>k \<in> set (queue g). \<not> live g k)) \<and>
         (\<forall>(g::'v HistoricalFIFO) v g' ns. Pop g = Popped v g' ns \<longrightarrow>
            (\<exists>k e. k \<in> set (queue g) \<and> map_of (items g) k = Some e \<and>
                   \<not> Is e (DELETE_EVENT OR POP_EVENT) \<and> v = Value e))"
proof (intro conjI)
  let ?pop = "PlainEntry \<lparr>value = Value item, event = POP_EVENT\<rparr>"
  obtain q where q: "queue f = key # q" and qs: "set q \<subseteq> {key}"
    using assms(1) by (cases "queue f") auto
  let ?f' = "f\<lparr>items := AList.update key ?pop (items f), queue := q\<rparr>"
  let ?g0 = "?f'\<lparr>queue := []\<rparr>"
  have p1: "Pop f = Popped (Value item) ?f' [?pop]"
    unfolding Pop_def q by (rule Pop_loop_take [OF assms(2,3)])
  have m1: "map_of (items ?f') = (map_of (items f))(key \<mapsto> ?pop)"
    by (simp add: update_conv')
  have dead: "\<forall>k \<in> set q. \<not> live ?f' k"
    using qs by (auto simp: live_update_same)
  have p2: "Pop ?f' = Waiting ?g0"
    using Pop_loop_wait [OF dead] by (simp add: Pop_def)
  have q0: "queue ?g0 = []" by simp
  have lk0: "map_of (items ?g0) key = Some ?pop" by (simp add: update_conv')
  have vp: "Value ?pop = Value item" by (simp add: Value_def)
  have A: "\<forall>uid now gcnow key2 obj.
               well_formed f \<and> map_of (items f) key2 = None \<longrightarrow>
               (\<exists>g g'. Add uid now gcnow ?g0 key2 obj =
                          Inr (g, [PlainEntry \<lparr>value = obj, event = ADD_EVENT\<rparr>]) \<and>
                        Pop g = Popped obj g' [PlainEntry \<lparr>value = obj, event = POP_EVENT\<rparr>])"
  proof (intro allI impI, elim conjE)
    fix uid now gcnow key2 obj
    assume wf: "well_formed f" and ab: "map_of (items f) key2 = None"
    have ne: "key2 \<noteq> key" using ab assms(2) by auto
    have w0: "well_formed ?g0" using well_formed_pop_update [OF wf, where key = key and v = "Value item" and q = "[]"] by simp
    have ab0: "map_of (items ?g0) key2 = None" using ab ne by (simp add: update_conv')
    show "\<exists>g g'. Add uid now gcnow ?g0 key2 obj =
                          Inr (g, [PlainEntry \<lparr>value = obj, event = ADD_EVENT\<rparr>]) \<and>
                        Pop g = Popped obj g' [PlainEntry \<lparr>value = obj, event = POP_EVENT\<rparr>]"
      by (rule Add_absent_then_Pop [OF w0 q0 ab0])
  qed
  have B: "\<forall>uid now gcnow obj.
               well_formed f \<and> obj \<noteq> Value item \<longrightarrow>
               (\<exists>g ns g'. Readd uid now gcnow ?g0 key obj POP_EVENT = Inr (g, ns) \<and>
                        Pop g = Popped obj g' [PlainEntry \<lparr>value = obj, event = POP_EVENT\<rparr>])"
  proof (intro allI impI, elim conjE)
    fix uid now gcnow obj
    assume wf: "well_formed f" and dv: "obj \<noteq> Value item"
    have w0: "well_formed ?g0" using well_formed_pop_update [OF wf, where key = key and v = "Value item" and q = "[]"] by simp
    have dv0: "obj \<noteq> Value ?pop" using dv vp by simp
    have tag: "Is ?pop POP_EVENT" by simp
    show "\<exists>g ns g'. Readd uid now gcnow ?g0 key obj POP_EVENT = Inr (g, ns) \<and>
                        Pop g = Popped obj g' [PlainEntry \<lparr>value = obj, event = POP_EVENT\<rparr>]"
      by (rule Readd_popped_then_Pop [OF w0 q0 lk0 tag dv0])
  qed
  show "\<exists>f'. Pop f = Popped (Value item) f' [?pop] \<and>
            map_of (items f') = (map_of (items f))(key \<mapsto> ?pop) \<and>
            Pop f' = Waiting (f'\<lparr>queue := []\<rparr>) \<and>
            (\<forall>uid now gcnow key2 obj.
               well_formed f \<and> map_of (items f) key2 = None \<longrightarrow>
               (\<exists>g g'. Add uid now gcnow (f'\<lparr>queue := []\<rparr>) key2 obj =
                          Inr (g, [PlainEntry \<lparr>value = obj, event = ADD_EVENT\<rparr>]) \<and>
                        Pop g = Popped obj g' [PlainEntry \<lparr>value = obj, event = POP_EVENT\<rparr>])) \<and>
            (\<forall>uid now gcnow obj.
               well_formed f \<and> obj \<noteq> Value item \<longrightarrow>
               (\<exists>g ns g'. Readd uid now gcnow (f'\<lparr>queue := []\<rparr>) key obj POP_EVENT = Inr (g, ns) \<and>
                        Pop g = Popped obj g' [PlainEntry \<lparr>value = obj, event = POP_EVENT\<rparr>]))"
    by (rule exI [of _ ?f']) (intro conjI p1 m1 p2 A B)
next
  show "\<forall>(g::'v HistoricalFIFO) k q. queue g = k # q \<and> \<not> live g k \<longrightarrow> Pop g = Pop (g\<lparr>queue := q\<rparr>)"
    using Pop_Cons_skip by blast
next
  show "\<forall>g::'v HistoricalFIFO. (\<exists>g'. Pop g = Waiting g') = (\<forall>k \<in> set (queue g). \<not> live g k)"
    by (simp add: Pop_def Pop_loop_Waiting_iff)
next
  show "\<forall>(g::'v HistoricalFIFO) v g' ns. Pop g = Popped v g' ns \<longrightarrow>
            (\<exists>k e. k \<in> set (queue g) \<and> map_of (items g) k = Some e \<and>
                   \<not> Is e (DELETE_EVENT OR POP_EVENT) \<and> v = Value e)"
  proof (intro allI impI)
    fix g :: "'v HistoricalFIFO" and v g' ns
    assume "Pop g = Popped v g' ns"
    then have "Pop_loop g (queue g) = Popped v g' ns" by (simp add: Pop_def)
    from Pop_loop_Popped_live [OF this]
    show "\<exists>k e. k \<in> set (queue g) \<and> map_of (items g) k = Some e \<and>
                   \<not> Is e (DELETE_EVENT OR POP_EVENT) \<and> v = Value e"
      by (elim exE conjE) (intro exI conjI; assumption)
  qed
qed


text \<open>One Add, two Pops, then an Add of another key and a third Pop.\<close>

theorem Pop_exactly_once_witness:
  "set (queue w8) = {''K''} \<and>
   map_of (items w8) ''K'' = Some (PlainEntry \<lparr>value = (''u1'', 1), event = ADD_EVENT\<rparr>) \<and>
   \<not> Is (PlainEntry \<lparr>value = (''u1'', 1), event = ADD_EVENT\<rparr>) (DELETE_EVENT OR POP_EVENT) \<and>
   well_formed w8 \<and> map_of (items w8) ''L'' = None \<and>
   Pop w8 = Popped (''u1'', 1) p8 [PlainEntry \<lparr>value = (''u1'', 1), event = POP_EVENT\<rparr>] \<and>
   Pop p8 = Waiting p8 \<and>
   Add fst 3 4 p8 ''L'' (''u2'', 2) =
     Inr (p8\<lparr>items := items p8 @ [(''L'', PlainEntry \<lparr>value = (''u2'', 2), event = ADD_EVENT\<rparr>)],
             queue := [''L''], gcc := 2\<rparr>,
          [PlainEntry \<lparr>value = (''u2'', 2), event = ADD_EVENT\<rparr>]) \<and>
   Pop (p8\<lparr>items := items p8 @ [(''L'', PlainEntry \<lparr>value = (''u2'', 2), event = ADD_EVENT\<rparr>)],
           queue := [''L''], gcc := 2\<rparr>) =
     Popped (''u2'', 2)
       (p8\<lparr>items := items p8 @ [(''L'', PlainEntry \<lparr>value = (''u2'', 2), event = POP_EVENT\<rparr>)],
           queue := [], gcc := 2\<rparr>)
       [PlainEntry \<lparr>value = (''u2'', 2), event = POP_EVENT\<rparr>]"
proof -
  have a1: "set (queue w8) = {''K''}" by (simp add: w8_def)
  have a2: "map_of (items w8) ''K'' = Some (PlainEntry \<lparr>value = (''u1'', 1), event = ADD_EVENT\<rparr>)"
    by (simp add: w8_def)
  have a3: "\<not> Is (PlainEntry \<lparr>value = (''u1'', 1), event = ADD_EVENT\<rparr>) (DELETE_EVENT OR POP_EVENT)"
    by (simp add: Is_or)
  have h: "well_formed w8" by (simp add: well_formed_def w8_def)
  have ab: "map_of (items w8) ''L'' = None" by (simp add: w8_def)
  have p1: "Pop w8 = Popped (''u1'', 1) p8 [PlainEntry \<lparr>value = (''u1'', 1), event = POP_EVENT\<rparr>]"
    by (simp add: Pop_def w8_def p8_def Is_or Value_def Let_def)
  have p2: "Pop p8 = Waiting p8" by (simp add: Pop_def p8_def)
  have ad: "Add fst 3 4 p8 ''L'' (''u2'', 2) =
     Inr (p8\<lparr>items := items p8 @ [(''L'', PlainEntry \<lparr>value = (''u2'', 2), event = ADD_EVENT\<rparr>)],
             queue := [''L''], gcc := 2\<rparr>,
          [PlainEntry \<lparr>value = (''u2'', 2), event = ADD_EVENT\<rparr>])"
    by (simp add: Add_def merge_def merge_store_def merge_gc_def p8_def Let_def)
  have p3: "Pop (p8\<lparr>items := items p8 @ [(''L'', PlainEntry \<lparr>value = (''u2'', 2), event = ADD_EVENT\<rparr>)],
           queue := [''L''], gcc := 2\<rparr>) =
     Popped (''u2'', 2)
       (p8\<lparr>items := items p8 @ [(''L'', PlainEntry \<lparr>value = (''u2'', 2), event = POP_EVENT\<rparr>)],
           queue := [], gcc := 2\<rparr>)
       [PlainEntry \<lparr>value = (''u2'', 2), event = POP_EVENT\<rparr>]"
    by (simp add: Pop_def p8_def Is_or Value_def Let_def)
  from Pop_exactly_once [OF a1 a2 a3] a1 a2 a3 h ab p1 p2 ad p3
  show ?thesis by simp
qed

section \<open>Replace: the two loops\<close>

lemma Replace_tombstones_Nil [simp]: "Replace_tombstones now ttl idToObj [] = []"
  by (simp add: Replace_tombstones_def)

lemma Replace_tombstones_Cons:
  "Replace_tombstones now ttl idToObj ((k, v) # its) =
     (if map_of idToObj k = None \<and> \<not> Is v DELETE_EVENT
      then (k, DeletedEntry ((entry_of v)\<lparr>event := DELETE_EVENT\<rparr>) (now + ttl))
             # Replace_tombstones now ttl idToObj its
      else Replace_tombstones now ttl idToObj its)"
  by (simp add: Replace_tombstones_def)

lemma Replace_mark_result:
  "list_all wf_Entry (map snd snap) \<Longrightarrow>
   Replace_mark now ttl idToObj snap (its, ns) =
     Inr (foldl (\<lambda>a (k, e). AList.update k e a) its (Replace_tombstones now ttl idToObj snap),
          ns @ map snd (Replace_tombstones now ttl idToObj snap))"
proof (induction snap arbitrary: its ns)
  case Nil
  then show ?case by simp
next
  case (Cons p snap)
  obtain k v where p: "p = (k, v)" by (cases p)
  have wf: "wf_Entry v" and wfs: "list_all wf_Entry (map snd snap)"
    using Cons.prems by (simp_all add: p)
  show ?case
  proof (cases "map_of idToObj k = None \<and> \<not> Is v DELETE_EVENT")
    case True
    then obtain ent where v: "v = PlainEntry ent" using wf by (cases v) simp_all
    show ?thesis
      using True Cons.IH [OF wfs]
      by (simp add: p v Replace_tombstones_Cons Let_def)
  next
    case False
    then show ?thesis
      using Cons.IH [OF wfs] by (auto simp: p Replace_tombstones_Cons)
  qed
qed

lemma foldl_update_distinct:
  "distinct (map fst its) \<Longrightarrow> distinct (map fst (foldl (\<lambda>a (k, e). AList.update k e a) its ts))"
  by (induction ts arbitrary: its) (auto simp: distinct_update)

lemma foldl_update_list_all:
  "list_all P (map snd its) \<Longrightarrow> list_all P (map snd ts) \<Longrightarrow>
   list_all P (map snd (foldl (\<lambda>a (k, e). AList.update k e a) its ts))"
  by (induction ts arbitrary: its) (auto simp: list_all_update)

lemma foldl_update_lookup:
  "distinct (map fst ts) \<Longrightarrow>
   map_of (foldl (\<lambda>a (k, e). AList.update k e a) its ts) k =
     (case map_of ts k of None \<Rightarrow> map_of its k | Some t \<Rightarrow> Some t)"
proof (induction ts arbitrary: its)
  case Nil
  then show ?case by simp
next
  case (Cons p ts)
  obtain k0 e0 where p: "p = (k0, e0)" by (cases p)
  have notin: "map_of ts k0 = None"
    using Cons.prems by (simp add: p map_of_eq_None_iff)
  show ?case
    using Cons notin by (simp add: p update_conv' split: option.splits)
qed

lemma Replace_tombstones_keys:
  "map fst (Replace_tombstones now ttl idToObj its) =
     map fst (filter (\<lambda>(k, v). map_of idToObj k = None \<and> \<not> Is v DELETE_EVENT) its)"
  by (simp add: Replace_tombstones_def case_prod_unfold comp_def)

lemma Replace_tombstones_distinct:
  "distinct (map fst its) \<Longrightarrow> distinct (map fst (Replace_tombstones now ttl idToObj its))"
  by (simp add: Replace_tombstones_keys distinct_map_filter)

lemma Replace_tombstones_wf:
  "list_all wf_Entry (map snd (Replace_tombstones now ttl idToObj its))"
  by (induction its) (auto simp: Replace_tombstones_Cons)

lemma Replace_tombstones_None:
  "map_of its k = None \<Longrightarrow> map_of (Replace_tombstones now ttl idToObj its) k = None"
proof -
  assume "map_of its k = None"
  then have "k \<notin> set (map fst its)" by (simp add: map_of_eq_None_iff)
  then have "k \<notin> set (map fst (Replace_tombstones now ttl idToObj its))"
    unfolding Replace_tombstones_keys by auto
  then show ?thesis by (simp add: map_of_eq_None_iff)
qed

lemma Replace_tombstones_lookup:
  "distinct (map fst its) \<Longrightarrow>
   map_of (Replace_tombstones now ttl idToObj its) k =
     (case map_of its k of None \<Rightarrow> None
      | Some v \<Rightarrow> if map_of idToObj k = None \<and> \<not> Is v DELETE_EVENT
                  then Some (DeletedEntry ((entry_of v)\<lparr>event := DELETE_EVENT\<rparr>) (now + ttl))
                  else None)"
proof (induction its)
  case Nil
  then show ?case by simp
next
  case (Cons p its)
  obtain k0 v0 where p: "p = (k0, v0)" by (cases p)
  have notin: "map_of its k0 = None"
    using Cons.prems by (simp add: p map_of_eq_None_iff)
  show ?case
    using Cons notin by (simp add: p Replace_tombstones_Cons Replace_tombstones_None)
qed


lemma Replace_marked_fields [simp]:
  "queue (Replace_marked now idToObj f) = []"
  "gcc (Replace_marked now idToObj f) = gcc f"
  "lingerTTL (Replace_marked now idToObj f) = lingerTTL f"
  by (simp_all add: Replace_marked_def)

lemma well_formed_Replace_marked:
  "well_formed f \<Longrightarrow> well_formed (Replace_marked now idToObj f)"
  by (simp add: well_formed_def Replace_marked_def foldl_update_distinct foldl_update_list_all
        Replace_tombstones_wf)

lemma Replace_marked_lookup:
  assumes "well_formed f"
  shows "map_of (items (Replace_marked now idToObj f)) k =
     (case map_of (items f) k of None \<Rightarrow> None
      | Some v \<Rightarrow> if map_of idToObj k = None \<and> \<not> Is v DELETE_EVENT
                  then Some (DeletedEntry ((entry_of v)\<lparr>event := DELETE_EVENT\<rparr>)
                               (now + lingerTTL f))
                  else Some v)"
proof -
  have d: "distinct (map fst (items f))" using assms by (simp add: well_formed_def)
  have l: "map_of (items (Replace_marked now idToObj f)) k =
      (case map_of (Replace_tombstones now (lingerTTL f) idToObj (items f)) k of
         None \<Rightarrow> map_of (items f) k | Some t \<Rightarrow> Some t)"
    by (simp add: Replace_marked_def foldl_update_lookup [OF Replace_tombstones_distinct [OF d]])
  show ?thesis
  proof (cases "map_of (items f) k")
    case None
    then show ?thesis unfolding l by (simp add: Replace_tombstones_None)
  next
    case (Some v)
    then show ?thesis unfolding l Replace_tombstones_lookup [OF d] by simp
  qed
qed

lemma Replace_eq:
  assumes "well_formed f"
  shows "Replace uid now clock f idToObj =
     Replace_merge uid clock 0 idToObj
       (Replace_marked now idToObj f,
        map snd (Replace_tombstones now (lingerTTL f) idToObj (items f)))"
proof -
  have w: "list_all wf_Entry (map snd (items f))" using assms by (simp add: well_formed_def)
  have c: "\<And>r. (case r of Inl err \<Rightarrow> Inl err
                 | Inr (f', notifications') \<Rightarrow> Inr (f', deliver notifications')) = r"
    by (rule sum_case_id)
  show ?thesis
    unfolding Replace_def Replace_mark_result [OF w]
    by (simp add: Replace_marked_def c)
qed

lemma Replace_merge_invariant_aux:
  assumes step: "\<And>g k obj now gcnow g' ns'.
      Q g \<Longrightarrow> well_formed g \<Longrightarrow> (k, obj) \<in> set idToObj \<Longrightarrow>
      merge uid now gcnow (g\<lparr>queue := queue g @ [k]\<rparr>) k obj = Inr (g', ns') \<Longrightarrow> Q g'"
  shows "set rest \<subseteq> set idToObj \<Longrightarrow> well_formed f \<Longrightarrow> Q f \<Longrightarrow>
         \<exists>f' ns'. Replace_merge uid clock i rest (f, ns) = Inr (f', ns @ ns') \<and>
           well_formed f' \<and> Q f'"
proof (induction rest arbitrary: f ns i)
  case Nil
  then show ?case by simp
next
  case (Cons p rest)
  obtain k obj where p: "p = (k, obj)" by (cases p)
  let ?g = "f\<lparr>queue := queue f @ [k]\<rparr>"
  have wg: "well_formed ?g" using Cons.prems(2) by simp
  have mem: "(k, obj) \<in> set idToObj" using Cons.prems(1) by (simp add: p)
  have sub: "set rest \<subseteq> set idToObj" using Cons.prems(1) by simp
  obtain g' n where m: "merge uid (fst (clock i)) (snd (clock i)) ?g k obj = Inr (g', n)"
    and w': "well_formed g'"
  proof -
    obtain n f' where "merge uid (fst (clock i)) (snd (clock i)) ?g k obj = Inr (f', n)"
      "well_formed f'"
      using merge_effect [OF wg, of uid "fst (clock i)" k obj "snd (clock i)"]
      by (elim exE conjE)
    then show ?thesis by (rule that)
  qed
  have q': "Q g'"
    by (rule step [OF Cons.prems(3) Cons.prems(2) mem m])
  obtain f' ns' where r: "Replace_merge uid clock (Suc i) rest (g', ns @ n) = Inr (f', (ns @ n) @ ns')"
    and wf': "well_formed f'" and qf: "Q f'"
    using Cons.IH [OF sub w' q', where i = "Suc i" and ns = "ns @ n"] by blast
  have "Replace_merge uid clock i (p # rest) (f, ns) = Inr (f', ns @ (n @ ns'))"
    using m r by (simp add: p)
  with wf' qf show ?case by blast
qed

lemma Replace_merge_invariant:
  assumes "\<And>g k obj now gcnow g' ns'.
      Q g \<Longrightarrow> well_formed g \<Longrightarrow> (k, obj) \<in> set idToObj \<Longrightarrow>
      merge uid now gcnow (g\<lparr>queue := queue g @ [k]\<rparr>) k obj = Inr (g', ns') \<Longrightarrow> Q g'"
    and "well_formed f" and "Q f"
  shows "\<exists>f' ns'. Replace_merge uid clock i idToObj (f, ns) = Inr (f', ns @ ns') \<and>
           well_formed f' \<and> Q f'"
  by (rule Replace_merge_invariant_aux [where Q = Q and idToObj = idToObj, OF assms(1) subset_refl assms(2,3)])

lemma Replace_total:
  assumes "well_formed f"
  shows "\<exists>f' ns. Replace uid now clock f idToObj = Inr (f', ns) \<and> well_formed f'"
proof -
  have "\<exists>f' ns'. Replace_merge uid clock 0 idToObj
            (Replace_marked now idToObj f,
             map snd (Replace_tombstones now (lingerTTL f) idToObj (items f))) =
          Inr (f', map snd (Replace_tombstones now (lingerTTL f) idToObj (items f)) @ ns') \<and>
          well_formed f' \<and> True"
    by (rule Replace_merge_invariant [where Q = "\<lambda>g. True"])
       (simp_all add: well_formed_Replace_marked [OF assms])
  then show ?thesis unfolding Replace_eq [OF assms] by blast
qed


lemma merge_store_other:
  "merge_store uid now f key obj = Inr (f1, ns) \<Longrightarrow> k \<noteq> key \<Longrightarrow>
   map_of (items f1) k = map_of (items f) k"
  by (auto simp: merge_store_def Let_def update_conv'
           split: option.splits if_splits Entry.splits)

lemma merge_other:
  assumes "well_formed f" "merge uid now gcnow f key obj = Inr (f', ns)" "k \<noteq> key"
  shows "map_of (items f') k =
     (if (gcc f + 1) mod 256 = 0
      then (case map_of (items f) k of None \<Rightarrow> None
            | Some e \<Rightarrow> if expired gcnow e then None else Some e)
      else map_of (items f) k)"
proof -
  obtain f1 ns1 where ms: "merge_store uid now f key obj = Inr (f1, ns1)"
    using merge_store_total [OF assms(1)] by blast
  obtain f'' where m: "merge uid now gcnow f key obj = Inr (f'', ns1)"
    and l: "\<And>k. map_of (items f'') k =
              (if (gcc f + 1) mod 256 = 0
               then (case map_of (items f1) k of None \<Rightarrow> None
                     | Some e \<Rightarrow> if expired gcnow e then None else Some e)
               else map_of (items f1) k)"
    using merge_lookup [OF assms(1) ms, of gcnow] by blast
  have eq: "f'' = f'" using m assms(2) by simp
  show ?thesis
    using l [of k] unfolding eq merge_store_other [OF ms assms(3)] .
qed

lemma merge_keeps_tombstone_or_gone:
  assumes "well_formed f" "merge uid now gcnow f key obj = Inr (f', ns)" "k \<noteq> key"
    and "tombstone_or_gone f k v"
  shows "tombstone_or_gone f' k v"
  using assms(4) unfolding tombstone_or_gone_def merge_other [OF assms(1,2,3)]
  by (simp split: option.splits)

lemma merge_keeps_undeleted:
  assumes "well_formed f" "merge uid now gcnow f key obj = Inr (f', ns)" "k \<noteq> key"
    and "map_of (items f) k = Some e" "\<not> Is e DELETE_EVENT"
  shows "map_of (items f') k = Some e"
  unfolding merge_other [OF assms(1,2,3)] using assms(4,5)
  by (simp add: not_expired_live)

lemma tombstone_or_gone_queue [simp]:
  "tombstone_or_gone (f\<lparr>queue := q\<rparr>) k v = tombstone_or_gone f k v"
  by (simp add: tombstone_or_gone_def)

lemma tombstone_or_gone_enqueue [simp]:
  "tombstone_or_gone (enqueue_unless_live f key) k v = tombstone_or_gone f k v"
  by (simp add: tombstone_or_gone_def)

lemma Delete_cases:
  assumes "well_formed f"
  obtains
    (noop) "map_of (items f) key = None \<or> (\<exists>e. map_of (items f) key = Some e \<and> Is e DELETE_EVENT)"
      "Delete now f key = Inr (f, [])"
  | (tomb) e where "map_of (items f) key = Some e" "\<not> Is e DELETE_EVENT"
      "Delete now f key =
         Inr (f\<lparr>items := AList.update key
                   (DeletedEntry ((entry_of e)\<lparr>event := DELETE_EVENT\<rparr>) (now + lingerTTL f))
                   (items f)\<rparr>,
              [DeletedEntry ((entry_of e)\<lparr>event := DELETE_EVENT\<rparr>) (now + lingerTTL f)])"
proof (cases "map_of (items f) key")
  case None
  then show ?thesis by (intro noop) (simp_all add: Delete_def)
next
  case (Some e)
  have we: "wf_Entry e" by (rule well_formed_lookup [OF assms Some])
  show ?thesis
  proof (cases "Is e DELETE_EVENT")
    case True
    then show ?thesis using Some by (intro noop) (simp_all add: Delete_def)
  next
    case False
    then obtain en where en: "e = PlainEntry en" using we by (cases e) simp_all
    show ?thesis
      by (rule tomb [OF Some False]) (use Some False in \<open>simp add: Delete_def en Let_def\<close>)
  qed
qed

lemma well_formed_Delete:
  assumes "well_formed f"
  shows "\<exists>f' ns. Delete now f key = Inr (f', ns) \<and> well_formed f' \<and> queue f' = queue f"
proof (rule Delete_cases [OF assms, of key now])
  assume "Delete now f key = Inr (f, [])"
  then show ?thesis using assms by simp
next
  fix e
  assume "Delete now f key =
         Inr (f\<lparr>items := AList.update key
                   (DeletedEntry ((entry_of e)\<lparr>event := DELETE_EVENT\<rparr>) (now + lingerTTL f))
                   (items f)\<rparr>,
              [DeletedEntry ((entry_of e)\<lparr>event := DELETE_EVENT\<rparr>) (now + lingerTTL f)])"
  then show ?thesis using assms by (simp add: well_formed_update)
qed

lemma Pop_loop_well_formed:
  "well_formed f \<Longrightarrow>
   (case Pop_loop f q of Waiting f' \<Rightarrow> well_formed f' | Popped v f' ns \<Rightarrow> well_formed f')"
  by (induction q) (simp_all add: Let_def well_formed_update split: option.splits)

section \<open>Adding a popped value back\<close>

lemma merge_same_value_of_popped:
  assumes wf: "well_formed g0" and q0: "queue g0 = []"
    and lk: "map_of (items g0) key = Some e0" and tag: "Is e0 POP_EVENT"
    and nd: "\<not> Is e0 DELETE_EVENT"
  shows "\<exists>g. merge uid now gcnow (g0\<lparr>queue := [key]\<rparr>) key (Value e0) = Inr (g, []) \<and>
             queue g = [key] \<and> map_of (items g) key = Some e0 \<and>
             Pop g = Waiting (g\<lparr>queue := []\<rparr>)"
proof -
  let ?g1 = "g0\<lparr>queue := [key]\<rparr>"
  have w1: "well_formed ?g1" using wf by simp
  have lk1: "map_of (items ?g1) key = Some e0" using lk by simp
  have ms: "merge_store uid now ?g1 key (Value e0) = Inr (?g1, [])"
    by (rule merge_store_same [OF lk1]) simp_all
  obtain g where m: "merge uid now gcnow ?g1 key (Value e0) = Inr (g, [])"
    and look: "map_of (items g) key = Some e0"
    using merge_lookup [OF w1 ms, of gcnow] lk nd by (auto simp: not_expired_live)
  have c: "count_list (queue g) key = count_list (queue ?g1) key"
    by (rule queue_after_merge_count [OF w1 m nd look])
  have qg: "queue g = [key]"
    by (rule queue_singleton_after_merge [OF w1 _ m]) (simp_all add: c)
  have dead: "\<forall>k \<in> set (queue g). \<not> live g k"
    using look tag by (simp add: qg live_def)
  have p: "Pop g = Waiting (g\<lparr>queue := []\<rparr>)"
    unfolding Pop_def by (rule Pop_loop_wait [OF dead])
  from m qg look p show ?thesis by (intro exI conjI)
qed

text \<open>
  C3. Pop returns the value of the only pending key once, and the next Pop waits. The
  claim, like the comment of \<^verbatim>\<open>Pop\<close> ("if you don't succesfully process it, you need to
  add it back with Add()"), has the waiting Pop released by a new Add or Readd that
  enqueues a key. The code does not do so when the popped value itself is added back:
  Add, and Readd with the mask \<open>POP_EVENT\<close>, append the key to the pending sequence,
  but \<^verbatim>\<open>merge\<close> finds the same unique identifier and a deep-equal value and leaves the
  entry tagged Pop; nothing is notified, Get still finds nothing, and Pop drops the key
  as stale and waits again.
\<close>

theorem Pop_waits_after_Add_of_popped_value:
  fixes f :: "'v HistoricalFIFO"
  assumes "well_formed f" and "set (queue f) = {key}" and "map_of (items f) key = Some item"
    and "\<not> Is item (DELETE_EVENT OR POP_EVENT)"
  shows "\<exists>f'. Pop f = Popped (Value item) f' [PlainEntry \<lparr>value = Value item, event = POP_EVENT\<rparr>] \<and>
           Pop f' = Waiting (f'\<lparr>queue := []\<rparr>) \<and>
           (\<exists>g. Add uid now gcnow (f'\<lparr>queue := []\<rparr>) key (Value item) = Inr (g, []) \<and>
                queue g = [key] \<and>
                map_of (items g) key = Some (PlainEntry \<lparr>value = Value item, event = POP_EVENT\<rparr>) \<and>
                Pop g = Waiting (g\<lparr>queue := []\<rparr>)) \<and>
           (\<exists>g. Readd uid now gcnow (f'\<lparr>queue := []\<rparr>) key (Value item) POP_EVENT = Inr (g, []) \<and>
                queue g = [key] \<and>
                map_of (items g) key = Some (PlainEntry \<lparr>value = Value item, event = POP_EVENT\<rparr>) \<and>
                Pop g = Waiting (g\<lparr>queue := []\<rparr>))"
proof -
  let ?pop = "PlainEntry \<lparr>value = Value item, event = POP_EVENT\<rparr>"
  obtain q where q: "queue f = key # q" and qs: "set q \<subseteq> {key}"
    using assms(2) by (cases "queue f") auto
  let ?f' = "f\<lparr>items := AList.update key ?pop (items f), queue := q\<rparr>"
  let ?g0 = "?f'\<lparr>queue := []\<rparr>"
  have p1: "Pop f = Popped (Value item) ?f' [?pop]"
    unfolding Pop_def q by (rule Pop_loop_take [OF assms(3,4)])
  have dead: "\<forall>k \<in> set q. \<not> live ?f' k"
    using qs by (auto simp: live_update_same)
  have p2: "Pop ?f' = Waiting ?g0"
    using Pop_loop_wait [OF dead] by (simp add: Pop_def)
  have q0: "queue ?g0 = []" by simp
  have lk0: "map_of (items ?g0) key = Some ?pop" by (simp add: update_conv')
  have vp: "Value ?pop = Value item" by (simp add: Value_def)
  have w0: "well_formed ?g0"
    using well_formed_pop_update [OF assms(1), where key = key and v = "Value item" and q = "[]"]
    by simp
  have tag: "Is ?pop POP_EVENT" and nd: "\<not> Is ?pop DELETE_EVENT" by simp_all
  have enq: "enqueue_unless_live ?g0 key = ?g0\<lparr>queue := [key]\<rparr>"
    using enqueue_dead [OF lk0] by simp
  obtain g where m: "merge uid now gcnow (?g0\<lparr>queue := [key]\<rparr>) key (Value item) = Inr (g, [])"
    and qg: "queue g = [key]" and look: "map_of (items g) key = Some ?pop"
    and p3: "Pop g = Waiting (g\<lparr>queue := []\<rparr>)"
    using merge_same_value_of_popped [OF w0 q0 lk0 tag nd, of uid now gcnow] unfolding vp
    by (elim exE conjE)
  have a: "Add uid now gcnow ?g0 key (Value item) = Inr (g, [])"
    unfolding Add_eq_merge enq by (rule m)
  have r: "Readd uid now gcnow ?g0 key (Value item) POP_EVENT = Inr (g, [])"
    unfolding Readd_eq_merge lk0 enq using m by simp
  have A: "\<exists>g. Add uid now gcnow ?g0 key (Value item) = Inr (g, []) \<and> queue g = [key] \<and>
                map_of (items g) key = Some ?pop \<and> Pop g = Waiting (g\<lparr>queue := []\<rparr>)"
    using a qg look p3 by (intro exI conjI)
  have R: "\<exists>g. Readd uid now gcnow ?g0 key (Value item) POP_EVENT = Inr (g, []) \<and> queue g = [key] \<and>
                map_of (items g) key = Some ?pop \<and> Pop g = Waiting (g\<lparr>queue := []\<rparr>)"
    using r qg look p3 by (intro exI conjI)
  show ?thesis
    by (rule exI [of _ ?f']) (intro conjI p1 p2 A R)
qed

text \<open>Add, Pop, Add of the same value, Pop; and the same with Readd.\<close>

theorem Pop_waits_after_Add_of_popped_value_witness:
  "well_formed w8 \<and> set (queue w8) = {''K''} \<and>
   map_of (items w8) ''K'' = Some (PlainEntry \<lparr>value = (''u1'', 1), event = ADD_EVENT\<rparr>) \<and>
   \<not> Is (PlainEntry \<lparr>value = (''u1'', 1), event = ADD_EVENT\<rparr>) (DELETE_EVENT OR POP_EVENT) \<and>
   Add fst 1 1 NewFIFO ''K'' (''u1'', 1) =
     Inr (w8, [PlainEntry \<lparr>value = (''u1'', 1), event = ADD_EVENT\<rparr>]) \<and>
   Pop w8 = Popped (''u1'', 1) p8 [PlainEntry \<lparr>value = (''u1'', 1), event = POP_EVENT\<rparr>] \<and>
   Add fst 3 4 p8 ''K'' (''u1'', 1) = Inr (p8\<lparr>queue := [''K''], gcc := 2\<rparr>, []) \<and>
   Pop (p8\<lparr>queue := [''K''], gcc := 2\<rparr>) = Waiting (p8\<lparr>gcc := 2\<rparr>) \<and>
   Readd fst 3 4 p8 ''K'' (''u1'', 1) POP_EVENT = Inr (p8\<lparr>queue := [''K''], gcc := 2\<rparr>, []) \<and>
   Get (p8\<lparr>queue := [''K''], gcc := 2\<rparr>) ''K'' = None"
proof -
  have h: "well_formed w8" by (simp add: well_formed_def w8_def)
  have a1: "set (queue w8) = {''K''}" by (simp add: w8_def)
  have a2: "map_of (items w8) ''K'' = Some (PlainEntry \<lparr>value = (''u1'', 1), event = ADD_EVENT\<rparr>)"
    by (simp add: w8_def)
  have a3: "\<not> Is (PlainEntry \<lparr>value = (''u1'', 1), event = ADD_EVENT\<rparr>) (DELETE_EVENT OR POP_EVENT)"
    by (simp add: Is_or)
  have a0: "Add fst 1 1 NewFIFO ''K'' (''u1'', 1) =
     Inr (w8, [PlainEntry \<lparr>value = (''u1'', 1), event = ADD_EVENT\<rparr>])"
    by (simp add: Add_def merge_def merge_store_def merge_gc_def NewFIFO_def w8_def Let_def)
  have p1: "Pop w8 = Popped (''u1'', 1) p8 [PlainEntry \<lparr>value = (''u1'', 1), event = POP_EVENT\<rparr>]"
    by (simp add: Pop_def w8_def p8_def Is_or Value_def Let_def)
  have ad: "Add fst 3 4 p8 ''K'' (''u1'', 1) = Inr (p8\<lparr>queue := [''K''], gcc := 2\<rparr>, [])"
    by (simp add: Add_def merge_def merge_store_def merge_gc_def p8_def Let_def Is_or Value_def)
  have p2: "Pop (p8\<lparr>queue := [''K''], gcc := 2\<rparr>) = Waiting (p8\<lparr>gcc := 2\<rparr>)"
    by (simp add: Pop_def p8_def Is_or)
  have rd: "Readd fst 3 4 p8 ''K'' (''u1'', 1) POP_EVENT = Inr (p8\<lparr>queue := [''K''], gcc := 2\<rparr>, [])"
    by (simp add: Readd_def merge_def merge_store_def merge_gc_def p8_def Let_def Is_or Value_def)
  have g: "Get (p8\<lparr>queue := [''K''], gcc := 2\<rparr>) ''K'' = None"
    by (simp add: Get_def p8_def Is_or)
  from Pop_waits_after_Add_of_popped_value [OF h a1 a2 a3, of fst 3 4] h a1 a2 a3 a0 p1 ad p2 rd g
  show ?thesis by simp
qed

section \<open>Replace and a tombstoned key\<close>

lemma Replace_merge_append:
  "Replace_merge uid clock i (xs @ ys) (f, ns) =
     (case Replace_merge uid clock i xs (f, ns) of
        Inl err \<Rightarrow> Inl err
      | Inr (g, ns') \<Rightarrow> Replace_merge uid clock (i + length xs) ys (g, ns'))"
proof (induction xs arbitrary: f ns i)
  case Nil
  then show ?case by simp
next
  case (Cons p xs)
  obtain k obj where p: "p = (k, obj)" by (cases p)
  show ?case
  proof (cases "merge uid (fst (clock i)) (snd (clock i)) (f\<lparr>queue := queue f @ [k]\<rparr>) k obj")
    case (Inl err)
    then show ?thesis by (simp add: p)
  next
    case (Inr r)
    obtain g n where r: "r = (g, n)" by (cases r)
    have e: "i + length (p # xs) = Suc i + length xs" by simp
    show ?thesis unfolding e using Inr Cons.IH [of "Suc i" g "ns @ n"] by (simp add: p r)
  qed
qed

lemma merge_into_tombstone:
  assumes "well_formed f" and "map_of (items f) key = Some item" and "Is item DELETE_EVENT"
  shows "\<exists>f'. merge uid now gcnow f key obj =
             Inr (f', if obj = Value item then []
                      else [PlainEntry \<lparr>value = obj, event = UPDATE_EVENT\<rparr>]) \<and>
             well_formed f' \<and>
             map_of (items f') key =
               (if obj \<noteq> Value item then Some (PlainEntry \<lparr>value = obj, event = UPDATE_EVENT\<rparr>)
                else if (gcc f + 1) mod 256 = 0 \<and> expired gcnow item then None
                else Some item)"
proof -
  have tot: "\<And>f' ns. merge uid now gcnow f key obj = Inr (f', ns) \<Longrightarrow> well_formed f'"
    using merge_effect [OF assms(1), of uid now key obj gcnow] by auto
  show ?thesis
  proof (cases "obj = Value item")
    case True
    have ms: "merge_store uid now f key obj = Inr (f, [])"
      using merge_store_same [OF assms(2) _ True] assms(3) by blast
    from merge_lookup [OF assms(1) ms, of gcnow] show ?thesis
      using True assms(2) tot by auto
  next
    case False
    let ?e = "PlainEntry \<lparr>value = obj, event = UPDATE_EVENT\<rparr>"
    have ms: "merge_store uid now f key obj =
                Inr (f\<lparr>items := AList.update key ?e (items f)\<rparr>, [?e])"
      using merge_store_update [OF assms(2) _ False] assms(3) by blast
    from merge_lookup [OF assms(1) ms, of gcnow] show ?thesis
      using False tot by (auto simp: update_conv')
  qed
qed

lemma merge_into_absent:
  assumes "well_formed f" and "map_of (items f) key = None"
  shows "\<exists>f'. merge uid now gcnow f key obj =
             Inr (f', [PlainEntry \<lparr>value = obj, event = ADD_EVENT\<rparr>]) \<and>
             well_formed f' \<and>
             map_of (items f') key = Some (PlainEntry \<lparr>value = obj, event = ADD_EVENT\<rparr>)"
proof -
  have tot: "\<And>f' ns. merge uid now gcnow f key obj = Inr (f', ns) \<Longrightarrow> well_formed f'"
    using merge_effect [OF assms(1), of uid now key obj gcnow] by auto
  let ?e = "PlainEntry \<lparr>value = obj, event = ADD_EVENT\<rparr>"
  have ms: "merge_store uid now f key obj =
                Inr (f\<lparr>items := AList.update key ?e (items f)\<rparr>, [?e])"
    by (rule merge_store_absent [OF assms(2)])
  from merge_lookup [OF assms(1) ms, of gcnow] show ?thesis
    using tot by (auto simp: update_conv')
qed

lemma Replace_merge_keeps_tombstone:
  assumes "well_formed f" and "key \<notin> fst ` set kvs"
    and "map_of (items f) key = Some item \<or> map_of (items f) key = None"
    and "Is item DELETE_EVENT"
  shows "\<exists>f' ns'. Replace_merge uid clock i kvs (f, ns) = Inr (f', ns @ ns') \<and> well_formed f' \<and>
           (map_of (items f') key = Some item \<or> map_of (items f') key = None)"
proof (rule Replace_merge_invariant
    [where Q = "\<lambda>g. map_of (items g) key = Some item \<or> map_of (items g) key = None",
      OF _ assms(1) assms(3)])
  fix g k obj now gcnow g' ns'
  assume q: "map_of (items g) key = Some item \<or> map_of (items g) key = None"
    and w: "well_formed g" and mem: "(k, obj) \<in> set kvs"
    and m: "merge uid now gcnow (g\<lparr>queue := queue g @ [k]\<rparr>) k obj = Inr (g', ns')"
  have ne: "key \<noteq> k" using mem assms(2) by force
  have wq: "well_formed (g\<lparr>queue := queue g @ [k]\<rparr>)" using w by simp
  show "map_of (items g') key = Some item \<or> map_of (items g') key = None"
    unfolding merge_other [OF wq m ne] using q by (auto split: if_splits)
qed

lemma Replace_merge_keeps_undeleted:
  assumes "well_formed f" and "key \<notin> fst ` set kvs"
    and "map_of (items f) key = Some e" and "\<not> Is e DELETE_EVENT"
  shows "\<exists>f' ns'. Replace_merge uid clock i kvs (f, ns) = Inr (f', ns @ ns') \<and> well_formed f' \<and>
           map_of (items f') key = Some e"
proof (rule Replace_merge_invariant
    [where Q = "\<lambda>g. map_of (items g) key = Some e", OF _ assms(1) assms(3)])
  fix g k obj now gcnow g' ns'
  assume q: "map_of (items g) key = Some e"
    and w: "well_formed g" and mem: "(k, obj) \<in> set kvs"
    and m: "merge uid now gcnow (g\<lparr>queue := queue g @ [k]\<rparr>) k obj = Inr (g', ns')"
  have ne: "key \<noteq> k" using mem assms(2) by force
  have wq: "well_formed (g\<lparr>queue := queue g @ [k]\<rparr>)" using w by simp
  have q': "map_of (items (g\<lparr>queue := queue g @ [k]\<rparr>)) key = Some e" using q by simp
  show "map_of (items g') key = Some e"
    by (rule merge_keeps_undeleted [OF wq m ne q' assms(4)])
qed


lemma Replace_at_key:
  assumes wf: "well_formed f"
    and r1: "Replace_merge uid clock 0 pre
               (Replace_marked now0 (pre @ (key, obj) # post) f,
                map snd (Replace_tombstones now0 (lingerTTL f) (pre @ (key, obj) # post) (items f)))
             = Inr (g, ns1)"
    and m: "merge uid (fst (clock (length pre))) (snd (clock (length pre)))
               (g\<lparr>queue := queue g @ [key]\<rparr>) key obj = Inr (g', n)"
    and r2: "Replace_merge uid clock (Suc (length pre)) post (g', ns1 @ n) = Inr (f', ns1 @ n @ ns2)"
  shows "Replace uid now0 clock f (pre @ (key, obj) # post) = Inr (f', ns1 @ n @ ns2)"
  unfolding Replace_eq [OF wf] Replace_merge_append r1
  using m r2 by simp

lemma Replace_on_tombstone:
  assumes wf: "well_formed f" and lk: "map_of (items f) key = Some item"
    and tag: "Is item DELETE_EVENT"
    and d: "distinct (map fst (pre @ (key, obj) # post))"
  shows "\<exists>g ns1 g' n f' ns2.
      Replace_merge uid clock 0 pre
        (Replace_marked now0 (pre @ (key, obj) # post) f,
         map snd (Replace_tombstones now0 (lingerTTL f) (pre @ (key, obj) # post) (items f)))
        = Inr (g, ns1) \<and>
      merge uid (fst (clock (length pre))) (snd (clock (length pre)))
        (g\<lparr>queue := queue g @ [key]\<rparr>) key obj = Inr (g', n) \<and>
      Replace_merge uid clock (Suc (length pre)) post (g', ns1 @ n) = Inr (f', ns1 @ n @ ns2) \<and>
      Replace uid now0 clock f (pre @ (key, obj) # post) = Inr (f', ns1 @ n @ ns2) \<and>
      (map_of (items g) key = Some item \<and> obj \<noteq> Value item \<and>
         n = [PlainEntry \<lparr>value = obj, event = UPDATE_EVENT\<rparr>] \<and>
         map_of (items f') key = Some (PlainEntry \<lparr>value = obj, event = UPDATE_EVENT\<rparr>)
       \<or> map_of (items g) key = Some item \<and> obj = Value item \<and> n = [] \<and>
         (map_of (items f') key = Some item \<or> map_of (items f') key = None)
       \<or> map_of (items g) key = None \<and>
         n = [PlainEntry \<lparr>value = obj, event = ADD_EVENT\<rparr>] \<and>
         map_of (items f') key = Some (PlainEntry \<lparr>value = obj, event = ADD_EVENT\<rparr>))"
proof -
  let ?kvs = "pre @ (key, obj) # post"
  let ?M = "Replace_marked now0 ?kvs f"
  let ?T = "map snd (Replace_tombstones now0 (lingerTTL f) ?kvs (items f))"
  let ?now = "fst (clock (length pre))" and ?gcnow = "snd (clock (length pre))"
  let ?upd = "PlainEntry \<lparr>value = obj, event = UPDATE_EVENT\<rparr>"
  let ?add = "PlainEntry \<lparr>value = obj, event = ADD_EVENT\<rparr>"
  have k1: "key \<notin> fst ` set pre" and k2: "key \<notin> fst ` set post"
    using d by auto
  have wM: "well_formed ?M" by (rule well_formed_Replace_marked [OF wf])
  have lM: "map_of (items ?M) key = Some item"
    unfolding Replace_marked_lookup [OF wf] using lk tag by simp
  obtain g ns' where r1: "Replace_merge uid clock 0 pre (?M, ?T) = Inr (g, ?T @ ns')"
    and wg: "well_formed g"
    and Qg: "map_of (items g) key = Some item \<or> map_of (items g) key = None"
    using Replace_merge_keeps_tombstone [OF wM k1 disjI1 [OF lM] tag, of uid clock 0 ?T]
    by (elim exE conjE)
  let ?gq = "g\<lparr>queue := queue g @ [key]\<rparr>"
  have wgq: "well_formed ?gq" using wg by simp
  from Qg show ?thesis
  proof
    assume lg: "map_of (items g) key = Some item"
    then have lgq: "map_of (items ?gq) key = Some item" by simp
    obtain g' where m: "merge uid ?now ?gcnow ?gq key obj =
             Inr (g', if obj = Value item then [] else [?upd])"
      and wg': "well_formed g'"
      and lg': "map_of (items g') key =
               (if obj \<noteq> Value item then Some ?upd
                else if (gcc ?gq + 1) mod 256 = 0 \<and> expired ?gcnow item then None
                else Some item)"
      using merge_into_tombstone [OF wgq lgq tag, of uid ?now ?gcnow obj] by (elim exE conjE)
    show ?thesis
    proof (cases "obj = Value item")
      case False
      have m': "merge uid ?now ?gcnow ?gq key obj = Inr (g', [?upd])" using m False by simp
      have l': "map_of (items g') key = Some ?upd" using lg' False by simp
      obtain f' ns2 where r2: "Replace_merge uid clock (Suc (length pre)) post (g', (?T @ ns') @ [?upd])
            = Inr (f', ((?T @ ns') @ [?upd]) @ ns2)"
        and lf: "map_of (items f') key = Some ?upd"
        using Replace_merge_keeps_undeleted [OF wg' k2 l', of uid clock "Suc (length pre)"
            "(?T @ ns') @ [?upd]"]
        by (auto simp del: append_assoc)
      have r2': "Replace_merge uid clock (Suc (length pre)) post (g', (?T @ ns') @ [?upd])
            = Inr (f', (?T @ ns') @ [?upd] @ ns2)" using r2 by simp
      have R: "Replace uid now0 clock f ?kvs = Inr (f', (?T @ ns') @ [?upd] @ ns2)"
        by (rule Replace_at_key [OF wf r1 m' r2'])
      have D: "map_of (items g) key = Some item \<and> obj \<noteq> Value item \<and>
         [?upd] = [PlainEntry \<lparr>value = obj, event = UPDATE_EVENT\<rparr>] \<and>
         map_of (items f') key = Some (PlainEntry \<lparr>value = obj, event = UPDATE_EVENT\<rparr>)
       \<or> map_of (items g) key = Some item \<and> obj = Value item \<and> [?upd] = [] \<and>
         (map_of (items f') key = Some item \<or> map_of (items f') key = None)
       \<or> map_of (items g) key = None \<and>
         [?upd] = [PlainEntry \<lparr>value = obj, event = ADD_EVENT\<rparr>] \<and>
         map_of (items f') key = Some (PlainEntry \<lparr>value = obj, event = ADD_EVENT\<rparr>)"
        using lg False lf by simp
      show ?thesis
        by (intro exI conjI) (rule r1 m' r2' R D)+
    next
      case True
      have m': "merge uid ?now ?gcnow ?gq key obj = Inr (g', [])" using m True by simp
      have l': "map_of (items g') key = Some item \<or> map_of (items g') key = None"
        using lg' True by auto
      obtain f' ns2 where r2: "Replace_merge uid clock (Suc (length pre)) post (g', (?T @ ns') @ [])
            = Inr (f', ((?T @ ns') @ []) @ ns2)"
        and lf: "map_of (items f') key = Some item \<or> map_of (items f') key = None"
        using Replace_merge_keeps_tombstone [OF wg' k2 l' tag, of uid clock "Suc (length pre)"
            "(?T @ ns') @ []"]
        by (elim exE conjE)
      have r2': "Replace_merge uid clock (Suc (length pre)) post (g', (?T @ ns') @ [])
            = Inr (f', (?T @ ns') @ [] @ ns2)" using r2 by simp
      have R: "Replace uid now0 clock f ?kvs = Inr (f', (?T @ ns') @ [] @ ns2)"
        by (rule Replace_at_key [OF wf r1 m' r2'])
      have D: "map_of (items g) key = Some item \<and> obj \<noteq> Value item \<and>
         [] = [PlainEntry \<lparr>value = obj, event = UPDATE_EVENT\<rparr>] \<and>
         map_of (items f') key = Some (PlainEntry \<lparr>value = obj, event = UPDATE_EVENT\<rparr>)
       \<or> map_of (items g) key = Some item \<and> obj = Value item \<and> [] = [] \<and>
         (map_of (items f') key = Some item \<or> map_of (items f') key = None)
       \<or> map_of (items g) key = None \<and>
         [] = [PlainEntry \<lparr>value = obj, event = ADD_EVENT\<rparr>] \<and>
         map_of (items f') key = Some (PlainEntry \<lparr>value = obj, event = ADD_EVENT\<rparr>)"
        using lg True lf by simp
      show ?thesis
        by (intro exI conjI) (rule r1 m' r2' R D)+
    qed
  next
    assume lg: "map_of (items g) key = None"
    then have lgq: "map_of (items ?gq) key = None" by simp
    obtain g' where m': "merge uid ?now ?gcnow ?gq key obj = Inr (g', [?add])"
      and wg': "well_formed g'" and l': "map_of (items g') key = Some ?add"
      using merge_into_absent [OF wgq lgq, of uid ?now ?gcnow obj] by (elim exE conjE)
    obtain f' ns2 where r2: "Replace_merge uid clock (Suc (length pre)) post (g', (?T @ ns') @ [?add])
            = Inr (f', ((?T @ ns') @ [?add]) @ ns2)"
      and lf: "map_of (items f') key = Some ?add"
      using Replace_merge_keeps_undeleted [OF wg' k2 l', of uid clock "Suc (length pre)"
            "(?T @ ns') @ [?add]"]
      by (auto simp del: append_assoc)
    have r2': "Replace_merge uid clock (Suc (length pre)) post (g', (?T @ ns') @ [?add])
            = Inr (f', (?T @ ns') @ [?add] @ ns2)" using r2 by simp
    have R: "Replace uid now0 clock f ?kvs = Inr (f', (?T @ ns') @ [?add] @ ns2)"
      by (rule Replace_at_key [OF wf r1 m' r2'])
    have D: "map_of (items g) key = Some item \<and> obj \<noteq> Value item \<and>
       [?add] = [PlainEntry \<lparr>value = obj, event = UPDATE_EVENT\<rparr>] \<and>
       map_of (items f') key = Some (PlainEntry \<lparr>value = obj, event = UPDATE_EVENT\<rparr>)
     \<or> map_of (items g) key = Some item \<and> obj = Value item \<and> [?add] = [] \<and>
       (map_of (items f') key = Some item \<or> map_of (items f') key = None)
     \<or> map_of (items g) key = None \<and>
       [?add] = [PlainEntry \<lparr>value = obj, event = ADD_EVENT\<rparr>] \<and>
       map_of (items f') key = Some (PlainEntry \<lparr>value = obj, event = ADD_EVENT\<rparr>)"
      using lg lf by simp
    show ?thesis
      by (intro exI conjI) (rule r1 m' r2' R D)+
  qed
qed


text \<open>
  C9, amended. When \<^verbatim>\<open>merge\<close> is called for a key whose entry is tagged Delete, a value
  different from the tombstoned one is stored as an Update-tagged entry and notified
  alone, whatever the identifiers: the hidden-delete path is not taken. An equal value
  notifies nothing and leaves the tombstone, which stays unless a sweep of the same
  call reclaims it as expired. Add reaches the merge with the key appended to the
  queue, and so does Readd when its mask matches the entry. Replace merges the keys of
  its argument one after the other: when the turn of the key comes, its entry is still
  the tombstone, and the merge does as said, or the sweep of an earlier merge of the
  same call has reclaimed it, and the merge stores an Add-tagged entry and notifies one
  Add. The entry stored for the key outlives the merges of the keys that follow.
\<close>

theorem merge_on_tombstone:
  assumes "well_formed f" and "map_of (items f) key = Some item" and "Is item DELETE_EVENT"
  shows "(\<forall>q. \<exists>f'. merge uid now gcnow (f\<lparr>queue := q\<rparr>) key obj =
             Inr (f', if obj = Value item then []
                      else [PlainEntry \<lparr>value = obj, event = UPDATE_EVENT\<rparr>]) \<and>
             map_of (items f') key =
               (if obj \<noteq> Value item then Some (PlainEntry \<lparr>value = obj, event = UPDATE_EVENT\<rparr>)
                else if (gcc f + 1) mod 256 = 0 \<and> expired gcnow item then None
                else Some item)) \<and>
         Add uid now gcnow f key obj = merge uid now gcnow (f\<lparr>queue := queue f @ [key]\<rparr>) key obj \<and>
         (Is item t \<longrightarrow>
            Readd uid now gcnow f key obj t =
              merge uid now gcnow (f\<lparr>queue := queue f @ [key]\<rparr>) key obj) \<and>
         (\<forall>pre post clock now0.
            distinct (map fst (pre @ (key, obj) # post)) \<longrightarrow>
            (\<exists>g ns1 g' n f' ns2.
               Replace_merge uid clock 0 pre
                 (Replace_marked now0 (pre @ (key, obj) # post) f,
                  map snd (Replace_tombstones now0 (lingerTTL f) (pre @ (key, obj) # post) (items f)))
                 = Inr (g, ns1) \<and>
               merge uid (fst (clock (length pre))) (snd (clock (length pre)))
                 (g\<lparr>queue := queue g @ [key]\<rparr>) key obj = Inr (g', n) \<and>
               Replace_merge uid clock (Suc (length pre)) post (g', ns1 @ n) = Inr (f', ns1 @ n @ ns2) \<and>
               Replace uid now0 clock f (pre @ (key, obj) # post) = Inr (f', ns1 @ n @ ns2) \<and>
               (map_of (items g) key = Some item \<and> obj \<noteq> Value item \<and>
                  n = [PlainEntry \<lparr>value = obj, event = UPDATE_EVENT\<rparr>] \<and>
                  map_of (items f') key = Some (PlainEntry \<lparr>value = obj, event = UPDATE_EVENT\<rparr>)
                \<or> map_of (items g) key = Some item \<and> obj = Value item \<and> n = [] \<and>
                  (map_of (items f') key = Some item \<or> map_of (items f') key = None)
                \<or> map_of (items g) key = None \<and>
                  n = [PlainEntry \<lparr>value = obj, event = ADD_EVENT\<rparr>] \<and>
                  map_of (items f') key = Some (PlainEntry \<lparr>value = obj, event = ADD_EVENT\<rparr>))))"
proof -
  note b = tombstone_merge_Add_Readd
    [OF assms, where uid = uid and now = now and gcnow = gcnow and obj = obj and t = t]
  have R: "\<forall>pre post clock now0.
            distinct (map fst (pre @ (key, obj) # post)) \<longrightarrow>
            (\<exists>g ns1 g' n f' ns2.
               Replace_merge uid clock 0 pre
                 (Replace_marked now0 (pre @ (key, obj) # post) f,
                  map snd (Replace_tombstones now0 (lingerTTL f) (pre @ (key, obj) # post) (items f)))
                 = Inr (g, ns1) \<and>
               merge uid (fst (clock (length pre))) (snd (clock (length pre)))
                 (g\<lparr>queue := queue g @ [key]\<rparr>) key obj = Inr (g', n) \<and>
               Replace_merge uid clock (Suc (length pre)) post (g', ns1 @ n) = Inr (f', ns1 @ n @ ns2) \<and>
               Replace uid now0 clock f (pre @ (key, obj) # post) = Inr (f', ns1 @ n @ ns2) \<and>
               (map_of (items g) key = Some item \<and> obj \<noteq> Value item \<and>
                  n = [PlainEntry \<lparr>value = obj, event = UPDATE_EVENT\<rparr>] \<and>
                  map_of (items f') key = Some (PlainEntry \<lparr>value = obj, event = UPDATE_EVENT\<rparr>)
                \<or> map_of (items g) key = Some item \<and> obj = Value item \<and> n = [] \<and>
                  (map_of (items f') key = Some item \<or> map_of (items f') key = None)
                \<or> map_of (items g) key = None \<and>
                  n = [PlainEntry \<lparr>value = obj, event = ADD_EVENT\<rparr>] \<and>
                  map_of (items f') key = Some (PlainEntry \<lparr>value = obj, event = ADD_EVENT\<rparr>)))"
    by (intro allI impI) (rule Replace_on_tombstone [OF assms])
  note b1 = b [THEN conjunct1]
    and b2 = b [THEN conjunct2, THEN conjunct1]
    and b3 = b [THEN conjunct2, THEN conjunct2]
  show ?thesis by (rule conjI [OF b1 conjI [OF b2 conjI [OF b3 R]]])
qed

text \<open>A different value arrives for the tombstoned key through Add, through Readd, and
  through Replace with the key visited second and first; the tombstone has expired and
  the counter stands at 255.\<close>

theorem merge_on_tombstone_witness:
  "well_formed c9 \<and>
   map_of (items c9) ''K'' =
     Some (DeletedEntry \<lparr>value = (''u1'', 1), event = DELETE_EVENT\<rparr> (5 * Minute)) \<and>
   Is (DeletedEntry \<lparr>value = (''u1'', 1), event = DELETE_EVENT\<rparr> (5 * Minute)) DELETE_EVENT \<and>
   distinct (map fst ([(''J'', (''u3'', 3::int))] @ (''K'', (''u2'', 2)) # [])) \<and>
   distinct (map fst ([] @ (''K'', (''u2'', 2)) # [(''J'', (''u3'', 3::int))])) \<and>
   Add fst 7 8 c9 ''K'' (''u2'', 2) =
     Inr (c9\<lparr>items := [(''K'', PlainEntry \<lparr>value = (''u2'', 2), event = UPDATE_EVENT\<rparr>)],
             queue := [''K''], gcc := 0\<rparr>,
          [PlainEntry \<lparr>value = (''u2'', 2), event = UPDATE_EVENT\<rparr>]) \<and>
   Readd fst 7 8 c9 ''K'' (''u2'', 2) DELETE_EVENT = Add fst 7 8 c9 ''K'' (''u2'', 2) \<and>
   Replace fst (6 * Minute) c9_clock c9 ([(''J'', (''u3'', 3))] @ (''K'', (''u2'', 2)) # []) =
     Inr (c9\<lparr>items := [(''J'', PlainEntry \<lparr>value = (''u3'', 3), event = ADD_EVENT\<rparr>),
                        (''K'', PlainEntry \<lparr>value = (''u2'', 2), event = ADD_EVENT\<rparr>)],
             queue := [''J'', ''K''], gcc := 1\<rparr>,
          [PlainEntry \<lparr>value = (''u3'', 3), event = ADD_EVENT\<rparr>,
           PlainEntry \<lparr>value = (''u2'', 2), event = ADD_EVENT\<rparr>]) \<and>
   Replace fst (6 * Minute) c9_clock c9 ([] @ (''K'', (''u2'', 2)) # [(''J'', (''u3'', 3))]) =
     Inr (c9\<lparr>items := [(''K'', PlainEntry \<lparr>value = (''u2'', 2), event = UPDATE_EVENT\<rparr>),
                        (''J'', PlainEntry \<lparr>value = (''u3'', 3), event = ADD_EVENT\<rparr>)],
             queue := [''K'', ''J''], gcc := 1\<rparr>,
          [PlainEntry \<lparr>value = (''u2'', 2), event = UPDATE_EVENT\<rparr>,
           PlainEntry \<lparr>value = (''u3'', 3), event = ADD_EVENT\<rparr>])"
proof -
  have h: "well_formed c9" by (simp add: well_formed_def c9_def)
  have e: "map_of (items c9) ''K'' =
     Some (DeletedEntry \<lparr>value = (''u1'', 1), event = DELETE_EVENT\<rparr> (5 * Minute))"
    by (simp add: c9_def)
  have tag: "Is (DeletedEntry \<lparr>value = (''u1'', 1), event = DELETE_EVENT\<rparr> (5 * Minute)) DELETE_EVENT"
    by simp
  have d1: "distinct (map fst ([(''J'', (''u3'', 3::int))] @ (''K'', (''u2'', 2)) # []))" by simp
  have d2: "distinct (map fst ([] @ (''K'', (''u2'', 2)) # [(''J'', (''u3'', 3::int))]))" by simp
  have a: "Add fst 7 8 c9 ''K'' (''u2'', 2) =
     Inr (c9\<lparr>items := [(''K'', PlainEntry \<lparr>value = (''u2'', 2), event = UPDATE_EVENT\<rparr>)],
             queue := [''K''], gcc := 0\<rparr>,
          [PlainEntry \<lparr>value = (''u2'', 2), event = UPDATE_EVENT\<rparr>])"
    by (simp add: c9_def Add_def merge_def merge_store_def merge_gc_def gc_def
          Let_def Is_or Value_def)
  have r1: "Replace fst (6 * Minute) c9_clock c9 ([(''J'', (''u3'', 3))] @ (''K'', (''u2'', 2)) # []) =
     Inr (c9\<lparr>items := [(''J'', PlainEntry \<lparr>value = (''u3'', 3), event = ADD_EVENT\<rparr>),
                        (''K'', PlainEntry \<lparr>value = (''u2'', 2), event = ADD_EVENT\<rparr>)],
             queue := [''J'', ''K''], gcc := 1\<rparr>,
          [PlainEntry \<lparr>value = (''u3'', 3), event = ADD_EVENT\<rparr>,
           PlainEntry \<lparr>value = (''u2'', 2), event = ADD_EVENT\<rparr>])"
    by (simp add: c9_def c9_clock_def Replace_def merge_def merge_store_def merge_gc_def gc_def
          Let_def Is_or Value_def Minute_def)
  have r2: "Replace fst (6 * Minute) c9_clock c9 ([] @ (''K'', (''u2'', 2)) # [(''J'', (''u3'', 3))]) =
     Inr (c9\<lparr>items := [(''K'', PlainEntry \<lparr>value = (''u2'', 2), event = UPDATE_EVENT\<rparr>),
                        (''J'', PlainEntry \<lparr>value = (''u3'', 3), event = ADD_EVENT\<rparr>)],
             queue := [''K'', ''J''], gcc := 1\<rparr>,
          [PlainEntry \<lparr>value = (''u2'', 2), event = UPDATE_EVENT\<rparr>,
           PlainEntry \<lparr>value = (''u3'', 3), event = ADD_EVENT\<rparr>])"
    by (simp add: c9_def c9_clock_def Replace_def merge_def merge_store_def merge_gc_def gc_def
          Let_def Is_or Value_def Minute_def)
  from merge_on_tombstone [OF h e tag, where uid = fst and now = 7 and gcnow = 8
      and obj = "(''u2'', 2)" and t = DELETE_EVENT]
    h e tag d1 d2 a r1 r2
  show ?thesis by simp
qed

section \<open>The read operations\<close>

text \<open>\<^verbatim>\<open>List\<close>, \<^verbatim>\<open>ContainedIDs\<close> and \<^verbatim>\<open>Get\<close> skip every entry tagged Delete or Pop:
  they show the live entries and nothing else.\<close>

lemma List_range_eq:
  "List_range its acc =
     acc @ map (\<lambda>(k, e). Value e) (filter (\<lambda>(k, e). \<not> Is e DELETE_EVENT \<and> \<not> Is e POP_EVENT) its)"
  by (induction its arbitrary: acc) (auto simp: Is_or)

lemma List_eq:
  "List g = map (\<lambda>(k, e). Value e)
              (filter (\<lambda>(k, e). \<not> Is e DELETE_EVENT \<and> \<not> Is e POP_EVENT) (items g))"
  by (simp add: List_def List_range_eq)

lemma ContainedIDs_range_eq:
  "ContainedIDs_range its s =
     s \<union> fst ` set (filter (\<lambda>(k, e). \<not> Is e DELETE_EVENT \<and> \<not> Is e POP_EVENT) its)"
  by (induction its arbitrary: s) (auto simp: Is_or image_iff)

lemma ContainedIDs_eq:
  assumes "well_formed g"
  shows "ContainedIDs g = {k. live g k}"
proof -
  have d: "distinct (map fst (items g))" using assms by (simp add: well_formed_def)
  have "\<And>k. (k \<in> fst ` set (filter (\<lambda>(k, e). \<not> Is e DELETE_EVENT \<and> \<not> Is e POP_EVENT) (items g)))
          = live g k"
  proof -
    fix k
    have "(k \<in> fst ` set (filter (\<lambda>(k, e). \<not> Is e DELETE_EVENT \<and> \<not> Is e POP_EVENT) (items g)))
        = (\<exists>e. (k, e) \<in> set (items g) \<and> \<not> Is e DELETE_EVENT \<and> \<not> Is e POP_EVENT)"
      by force
    also have "\<dots> = (\<exists>e. map_of (items g) k = Some e \<and> \<not> Is e DELETE_EVENT \<and> \<not> Is e POP_EVENT)"
      by (simp add: map_of_eq_Some_iff [OF d])
    also have "\<dots> = live g k"
      by (cases "map_of (items g) k") (simp_all add: live_def)
    finally show "(k \<in> fst ` set (filter (\<lambda>(k, e). \<not> Is e DELETE_EVENT \<and> \<not> Is e POP_EVENT) (items g)))
          = live g k" .
  qed
  then show ?thesis by (auto simp: ContainedIDs_def ContainedIDs_range_eq)
qed

lemma Get_eq:
  "Get g k = (if live g k then map_option Value (map_of (items g) k) else None)"
  by (cases "map_of (items g) k") (simp_all add: Get_def live_def Is_or)

lemma List_without_dead_key:
  assumes "well_formed g" and "\<not> live g k"
  shows "List g = List (g\<lparr>items := AList.delete k (items g)\<rparr>)"
proof -
  have d: "distinct (map fst (items g))" using assms(1) by (simp add: well_formed_def)
  have "filter (\<lambda>(k', e). \<not> Is e DELETE_EVENT \<and> \<not> Is e POP_EVENT) (items g) =
        filter (\<lambda>(k', e). \<not> Is e DELETE_EVENT \<and> \<not> Is e POP_EVENT)
          (filter (\<lambda>(k', e). k \<noteq> k') (items g))"
    unfolding filter_filter
  proof (rule filter_cong [OF refl])
    fix x assume x: "x \<in> set (items g)"
    obtain k' e where xe: "x = (k', e)" by (cases x)
    have "k' = k \<Longrightarrow> Is e DELETE_EVENT \<or> Is e POP_EVENT"
      using assms(2) x xe map_of_is_SomeI [OF d, of k e] by (auto simp: live_def)
    then show "(case x of (k', e) \<Rightarrow> \<not> Is e DELETE_EVENT \<and> \<not> Is e POP_EVENT) =
          ((case x of (k', e) \<Rightarrow> k \<noteq> k') \<and>
           (case x of (k', e) \<Rightarrow> \<not> Is e DELETE_EVENT \<and> \<not> Is e POP_EVENT))"
      by (auto simp: xe)
  qed
  then show ?thesis by (simp add: List_eq AList.delete_eq)
qed

lemma reads_exclude_dead_key:
  assumes "well_formed g" and "\<not> live g k"
  shows "Get g k = None \<and> k \<notin> ContainedIDs g \<and>
         List g = List (g\<lparr>items := AList.delete k (items g)\<rparr>)"
  using assms List_without_dead_key [OF assms]
  by (simp add: Get_eq ContainedIDs_eq)

section \<open>Entries tagged Pop and the sweep\<close>

lemma tombstone_or_gone_not_live: "tombstone_or_gone g k v \<Longrightarrow> \<not> live g k"
  by (auto simp: tombstone_or_gone_def live_def split: option.splits)

lemma Pop_loop_Waiting_state: "Pop_loop f q = Waiting f' \<Longrightarrow> f' = f\<lparr>queue := []\<rparr>"
  by (induction q) (auto simp: Let_def split: option.splits if_splits)

lemma merge_total_wf:
  assumes "well_formed f"
  shows "\<exists>f' ns. merge uid now gcnow f key obj = Inr (f', ns) \<and> well_formed f'"
  using merge_effect [OF assms, of uid now key obj gcnow] by blast


lemma well_formed_enqueue_unless_live [simp]:
  "well_formed (enqueue_unless_live f k) = well_formed f"
  by (simp add: enqueue_unless_live_def)

lemma items_enqueue_unless_live [simp]:
  "items (enqueue_unless_live f k) = items f"
  by (simp add: enqueue_unless_live_def)

lemma Add_keeps_undeleted:
  assumes wf: "well_formed f" and ne: "key \<noteq> k"
    and lk: "map_of (items f) key = Some e" and nd: "\<not> Is e DELETE_EVENT"
  shows "\<exists>f' ns. Add uid now gcnow f k obj = Inr (f', ns) \<and> well_formed f' \<and>
           map_of (items f') key = Some e"
proof -
  have w: "well_formed (enqueue_unless_live f k)" using wf by simp
  from merge_effect [OF w, of uid now k obj gcnow]
  obtain f' ns where m: "merge uid now gcnow (enqueue_unless_live f k) k obj = Inr (f', ns)"
    and w': "well_formed f'" by blast
  have "map_of (items f') key = Some e"
    by (rule merge_keeps_undeleted [OF w m ne _ nd]) (simp add: lk)
  with m w' show ?thesis unfolding Add_eq_merge by (intro exI conjI)
qed

lemma Readd_keeps_undeleted:
  assumes wf: "well_formed f" and ne: "key \<noteq> k"
    and lk: "map_of (items f) key = Some e" and nd: "\<not> Is e DELETE_EVENT"
  shows "\<exists>f' ns. Readd uid now gcnow f k obj t = Inr (f', ns) \<and> well_formed f' \<and>
           map_of (items f') key = Some e"
proof (cases "map_of (items f) k")
  case None
  from merge_effect [OF wf, of uid now k obj gcnow]
  obtain f' ns where m: "merge uid now gcnow f k obj = Inr (f', ns)"
    and w': "well_formed f'" by blast
  have "map_of (items f') key = Some e"
    by (rule merge_keeps_undeleted [OF wf m ne lk nd])
  with m w' show ?thesis unfolding Readd_eq_merge None by simp
next
  case (Some entry)
  show ?thesis
  proof (cases "Is entry t")
    case True
    have eq: "Readd uid now gcnow f k obj t = Add uid now gcnow f k obj"
      unfolding Readd_eq_merge Add_eq_merge Some using True by simp
    show ?thesis unfolding eq by (rule Add_keeps_undeleted [OF wf ne lk nd])
  next
    case False
    have "Readd uid now gcnow f k obj t = Inr (f, [])"
      unfolding Readd_eq_merge Some using False by simp
    with wf lk show ?thesis by simp
  qed
qed

lemma Delete_keeps_other:
  assumes wf: "well_formed f" and ne: "key \<noteq> k"
  shows "\<exists>f' ns. Delete now f k = Inr (f', ns) \<and> well_formed f' \<and>
           map_of (items f') key = map_of (items f) key"
proof -
  from well_formed_Delete [OF wf, of now k]
  obtain f' ns where d: "Delete now f k = Inr (f', ns)" and w': "well_formed f'" by blast
  have "map_of (items f') key = map_of (items f) key"
  proof (rule Delete_cases [OF wf, of k now])
    assume "Delete now f k = Inr (f, [])"
    with d show ?thesis by simp
  next
    fix e0
    assume "Delete now f k =
         Inr (f\<lparr>items := AList.update k
                   (DeletedEntry ((entry_of e0)\<lparr>event := DELETE_EVENT\<rparr>) (now + lingerTTL f))
                   (items f)\<rparr>,
              [DeletedEntry ((entry_of e0)\<lparr>event := DELETE_EVENT\<rparr>) (now + lingerTTL f)])"
    with d ne show ?thesis by (auto simp: update_conv')
  qed
  with d w' show ?thesis by (intro exI conjI)
qed

lemma Pop_keeps_dead:
  assumes wf: "well_formed f" and lk: "map_of (items f) key = Some e"
    and dead: "Is e DELETE_EVENT \<or> Is e POP_EVENT"
  shows "\<exists>f'. step uid OpPop f = Inr f' \<and> well_formed f' \<and> map_of (items f') key = Some e"
proof (cases "Pop f")
  case (Waiting g)
  then have "g = f\<lparr>queue := []\<rparr>" by (simp add: Pop_def Pop_loop_Waiting_state)
  with Waiting wf lk show ?thesis by simp
next
  case (Popped v g ns)
  then have pl: "Pop_loop f (queue f) = Popped v g ns" by (simp add: Pop_def)
  from Pop_loop_well_formed [OF wf, of "queue f"] pl have w': "well_formed g" by simp
  from Pop_loop_Popped_live [OF pl]
  obtain k e0 where e0: "map_of (items f) k = Some e0" "\<not> Is e0 (DELETE_EVENT OR POP_EVENT)"
    and it: "map_of (items g) = (map_of (items f))(k \<mapsto> PlainEntry \<lparr>value = v, event = POP_EVENT\<rparr>)"
    by blast
  have "k \<noteq> key" using e0 lk dead by (auto simp: Is_or)
  then have "map_of (items g) key = Some e" using it lk by simp
  with Popped w' show ?thesis by simp
qed

lemma step_keeps_popped:
  assumes wf: "well_formed f" and lk: "map_of (items f) key = Some e"
    and nd: "\<not> Is e DELETE_EVENT" and p: "Is e POP_EVENT"
    and nw: "\<not> writes_key key op"
  shows "\<exists>f'. step uid op f = Inr f' \<and> well_formed f' \<and> map_of (items f') key = Some e"
proof (cases op)
  case (OpAdd k obj now gcnow)
  with nw have ne: "key \<noteq> k" by auto
  from Add_keeps_undeleted [OF wf ne lk nd, of uid now gcnow obj] OpAdd
  show ?thesis by auto
next
  case (OpUpdate k obj now gcnow)
  with nw have ne: "key \<noteq> k" by auto
  from Add_keeps_undeleted [OF wf ne lk nd, of uid now gcnow obj] OpUpdate
  show ?thesis by (auto simp: Update_def)
next
  case (OpReadd k obj t now gcnow)
  with nw have ne: "key \<noteq> k" by auto
  from Readd_keeps_undeleted [OF wf ne lk nd, of uid now gcnow obj t] OpReadd
  show ?thesis by auto
next
  case (OpDelete k now)
  with nw have ne: "key \<noteq> k" by auto
  from Delete_keeps_other [OF wf ne, of now] OpDelete lk
  show ?thesis by auto
next
  case OpPop
  from Pop_keeps_dead [OF wf lk, of uid] p OpPop show ?thesis by simp
next
  case (OpReplace idToObj now clock)
  with nw show ?thesis by simp
qed

lemma run_keeps_popped:
  assumes "well_formed f" and "map_of (items f) key = Some e"
    and "\<not> Is e DELETE_EVENT" and "Is e POP_EVENT"
    and "\<forall>op \<in> set ops. \<not> writes_key key op"
  shows "\<exists>f'. run uid ops f = Inr f' \<and> well_formed f' \<and> map_of (items f') key = Some e"
  using assms
proof (induction ops arbitrary: f)
  case Nil
  then show ?case by simp
next
  case (Cons op ops)
  from Cons.prems(5) have nw: "\<not> writes_key key op"
    and rest: "\<forall>op \<in> set ops. \<not> writes_key key op" by simp_all
  from step_keeps_popped [OF Cons.prems(1-4) nw, of uid]
  obtain f1 where s: "step uid op f = Inr f1" and w1: "well_formed f1"
    and l1: "map_of (items f1) key = Some e" by blast
  from Cons.IH [OF w1 l1 Cons.prems(3,4) rest] s show ?case by simp
qed

lemma gc_keeps_undeleted:
  assumes wf: "well_formed f"
  shows "\<exists>g. gc now f = Inr g \<and>
           (\<forall>k e. map_of (items f) k = Some e \<and> \<not> Is e DELETE_EVENT \<longrightarrow>
                  map_of (items g) k = Some e) \<and>
           (\<forall>k. map_of (items g) k = None \<or> map_of (items g) k = map_of (items f) k)"
proof -
  have a: "\<forall>k e. map_of (items f) k = Some e \<and> \<not> Is e DELETE_EVENT \<longrightarrow>
                  map_of (items (sweep now f)) k = Some e"
    by (auto simp: map_of_sweep [OF wf] expired_def split: Entry.splits)
  have b: "\<forall>k. map_of (items (sweep now f)) k = None \<or>
                map_of (items (sweep now f)) k = map_of (items f) k"
    by (simp add: map_of_sweep [OF wf] split: option.splits)
  from gc_result [OF wf, of now] a b show ?thesis by simp
qed

text \<open>
  C10, amended. The sweep removes only entries tagged Delete: every other entry is
  found unchanged after \<^verbatim>\<open>gc\<close>, whatever the time. So an entry tagged Pop (and not
  Delete) is never reclaimed; it stays in \<open>items\<close> unchanged, and invisible to
  \<^verbatim>\<open>Get\<close>, \<^verbatim>\<open>ContainedIDs\<close> and \<^verbatim>\<open>List\<close>, through every sequence of operations none of
  which is an Add, Update, Readd or Delete of its key or a Replace.
\<close>

theorem gc_never_reclaims_popped:
  fixes f :: "'v HistoricalFIFO"
  assumes "well_formed f" and "map_of (items f) key = Some e"
    and "Is e POP_EVENT" and "\<not> Is e DELETE_EVENT"
  shows "(\<forall>now. \<exists>g. gc now f = Inr g \<and> map_of (items g) key = Some e \<and>
            (\<forall>k e'. map_of (items f) k = Some e' \<and> \<not> Is e' DELETE_EVENT \<longrightarrow>
                     map_of (items g) k = Some e')) \<and>
         (\<forall>uid ops. (\<forall>op \<in> set ops. \<not> writes_key key op) \<longrightarrow>
            (\<exists>f'. run uid ops f = Inr f' \<and> map_of (items f') key = Some e \<and>
                  Get f' key = None \<and> key \<notin> ContainedIDs f' \<and>
                  List f' = List (f'\<lparr>items := AList.delete key (items f')\<rparr>)))"
proof (intro conjI allI impI)
  fix now
  from gc_keeps_undeleted [OF assms(1), of now]
  obtain g where g: "gc now f = Inr g"
    and k: "\<forall>k e'. map_of (items f) k = Some e' \<and> \<not> Is e' DELETE_EVENT \<longrightarrow>
                     map_of (items g) k = Some e'" by blast
  from k assms(2,4) have "map_of (items g) key = Some e" by blast
  with g k show "\<exists>g. gc now f = Inr g \<and> map_of (items g) key = Some e \<and>
            (\<forall>k e'. map_of (items f) k = Some e' \<and> \<not> Is e' DELETE_EVENT \<longrightarrow>
                     map_of (items g) k = Some e')"
    by (intro exI conjI)
next
  fix uid :: "'v \<Rightarrow> string" and ops :: "'v Op list"
  assume nw: "\<forall>op \<in> set ops. \<not> writes_key key op"
  from run_keeps_popped [OF assms(1,2,4,3) nw, of uid]
  obtain f' where r: "run uid ops f = Inr f'" and w: "well_formed f'"
    and l: "map_of (items f') key = Some e" by blast
  have nl: "\<not> live f' key" using l assms(3) by (simp add: live_def)
  note x = reads_exclude_dead_key [OF w nl]
  show "\<exists>f'. run uid ops f = Inr f' \<and> map_of (items f') key = Some e \<and>
                  Get f' key = None \<and> key \<notin> ContainedIDs f' \<and>
                  List f' = List (f'\<lparr>items := AList.delete key (items f')\<rparr>)"
    by (rule exI [of _ f'])
       (rule conjI [OF r conjI [OF l x]])
qed

text \<open>An Add, a Pop and a Delete of another key, the Add being the 256th merge.\<close>

theorem gc_never_reclaims_popped_witness:
  "well_formed p10 \<and>
   map_of (items p10) ''K'' = Some (PlainEntry \<lparr>value = (''u1'', 1), event = POP_EVENT\<rparr>) \<and>
   gc (6 * Minute) p10 = Inr p10 \<and>
   run fst [OpAdd ''J'' (''u2'', 2) (6 * Minute) (6 * Minute), OpPop, OpDelete ''J'' (7 * Minute)] p10 =
     Inr \<lparr>items = [(''K'', PlainEntry \<lparr>value = (''u1'', 1), event = POP_EVENT\<rparr>),
                   (''J'', DeletedEntry \<lparr>value = (''u2'', 2), event = DELETE_EVENT\<rparr> (12 * Minute))],
          queue = [], gcc = 0, lingerTTL = 5 * Minute\<rparr> \<and>
   Get \<lparr>items = [(''K'', PlainEntry \<lparr>value = (''u1'', 1 :: int), event = POP_EVENT\<rparr>),
                 (''J'', DeletedEntry \<lparr>value = (''u2'', 2), event = DELETE_EVENT\<rparr> (12 * Minute))],
        queue = [], gcc = 0, lingerTTL = 5 * Minute\<rparr> ''K'' = None"
proof -
  have h: "well_formed p10" by (simp add: well_formed_def p10_def)
  have a: "map_of (items p10) ''K'' = Some (PlainEntry \<lparr>value = (''u1'', 1), event = POP_EVENT\<rparr>)"
    by (simp add: p10_def)
  have b: "Is (PlainEntry \<lparr>value = (''u1'', 1) :: string \<times> int, event = POP_EVENT\<rparr>) POP_EVENT" by simp
  have c: "\<not> Is (PlainEntry \<lparr>value = (''u1'', 1) :: string \<times> int, event = POP_EVENT\<rparr>) DELETE_EVENT" by simp
  have g: "gc (6 * Minute) p10 = Inr p10"
    by (simp add: gc_def p10_def)
  have r: "run fst [OpAdd ''J'' (''u2'', 2) (6 * Minute) (6 * Minute), OpPop, OpDelete ''J'' (7 * Minute)] p10 =
     Inr \<lparr>items = [(''K'', PlainEntry \<lparr>value = (''u1'', 1), event = POP_EVENT\<rparr>),
                   (''J'', DeletedEntry \<lparr>value = (''u2'', 2), event = DELETE_EVENT\<rparr> (12 * Minute))],
          queue = [], gcc = 0, lingerTTL = 5 * Minute\<rparr>"
    by (simp add: Add_def Pop_def Delete_def merge_def merge_store_def merge_gc_def gc_def
          p10_def Let_def Is_or Value_def Minute_def)
  have nw: "\<forall>op \<in> set [OpAdd ''J'' (''u2'', 2) (6 * Minute) (6 * Minute), OpPop,
                          OpDelete ''J'' (7 * Minute) :: (string \<times> int) Op].
              \<not> writes_key ''K'' op" by simp
  note t = gc_never_reclaims_popped [OF h a b c, THEN conjunct2, THEN spec [where x = fst],
             THEN spec, THEN mp, OF nw]
  from t r have "Get \<lparr>items = [(''K'', PlainEntry \<lparr>value = (''u1'', 1 :: int), event = POP_EVENT\<rparr>),
                 (''J'', DeletedEntry \<lparr>value = (''u2'', 2), event = DELETE_EVENT\<rparr> (12 * Minute))],
        queue = [], gcc = 0, lingerTTL = 5 * Minute\<rparr> ''K'' = None"
    by simp
  with g r h a show ?thesis by simp
qed

text \<open>
  C10 as stated names Add, Readd and Replace as the only operations that end the stay
  of an entry tagged Pop. \<^verbatim>\<open>Delete\<close> is another: it tombstones every entry that is not
  tagged Delete, one tagged Pop included, and the next sweep after the expiration
  removes the tombstone from \<open>items\<close>. Below, the Add of another key is the 256th merge.
\<close>

theorem Delete_tombstones_popped_counterexample:
  "well_formed p10 \<and>
   map_of (items p10) ''K'' = Some (PlainEntry \<lparr>value = (''u1'', 1), event = POP_EVENT\<rparr>) \<and>
   Delete 0 p10 ''K'' =
     Inr (p10\<lparr>items := [(''K'', DeletedEntry \<lparr>value = (''u1'', 1), event = DELETE_EVENT\<rparr> (5 * Minute))]\<rparr>,
          [DeletedEntry \<lparr>value = (''u1'', 1), event = DELETE_EVENT\<rparr> (5 * Minute)]) \<and>
   gc (6 * Minute) (p10\<lparr>items := [(''K'', DeletedEntry \<lparr>value = (''u1'', 1), event = DELETE_EVENT\<rparr> (5 * Minute))]\<rparr>) =
     Inr (p10\<lparr>items := []\<rparr>) \<and>
   run fst [OpDelete ''K'' 0, OpAdd ''J'' (''u2'', 2) (6 * Minute) (6 * Minute)] p10 =
     Inr \<lparr>items = [(''J'', PlainEntry \<lparr>value = (''u2'', 2), event = ADD_EVENT\<rparr>)],
          queue = [''J''], gcc = 0, lingerTTL = 5 * Minute\<rparr>"
  by (simp add: well_formed_def Add_def Delete_def merge_def merge_store_def merge_gc_def gc_def
        p10_def Let_def Is_or Value_def Minute_def)

section \<open>A deleted key and the read operations\<close>

text \<open>A key that has been deleted stays a tombstone of the deleted value, or absent once
  the sweep has reclaimed it, under every operation that does not merge a value for it.\<close>

lemma Value_tombstone [simp]:
  "Value (DeletedEntry ((entry_of e)\<lparr>event := DELETE_EVENT\<rparr>) t) = Value e"
  by (cases e) (simp_all add: Value_def)

lemma Add_keeps_tombstone_or_gone:
  assumes wf: "well_formed f" and ne: "key \<noteq> k" and tg: "tombstone_or_gone f key v"
  shows "\<exists>f' ns. Add uid now gcnow f k obj = Inr (f', ns) \<and> well_formed f' \<and>
           tombstone_or_gone f' key v"
proof -
  have w: "well_formed (enqueue_unless_live f k)" using wf by simp
  from merge_effect [OF w, of uid now k obj gcnow]
  obtain f' ns where m: "merge uid now gcnow (enqueue_unless_live f k) k obj = Inr (f', ns)"
    and w': "well_formed f'" by blast
  have "tombstone_or_gone f' key v"
    by (rule merge_keeps_tombstone_or_gone [OF w m ne]) (simp add: tg)
  with m w' show ?thesis unfolding Add_eq_merge by (intro exI conjI)
qed

lemma Readd_keeps_tombstone_or_gone:
  assumes wf: "well_formed f" and ne: "key \<noteq> k" and tg: "tombstone_or_gone f key v"
  shows "\<exists>f' ns. Readd uid now gcnow f k obj t = Inr (f', ns) \<and> well_formed f' \<and>
           tombstone_or_gone f' key v"
proof (cases "map_of (items f) k")
  case None
  from merge_effect [OF wf, of uid now k obj gcnow]
  obtain f' ns where m: "merge uid now gcnow f k obj = Inr (f', ns)"
    and w': "well_formed f'" by blast
  have "tombstone_or_gone f' key v"
    by (rule merge_keeps_tombstone_or_gone [OF wf m ne tg])
  with m w' show ?thesis unfolding Readd_eq_merge None by simp
next
  case (Some entry)
  show ?thesis
  proof (cases "Is entry t")
    case True
    have eq: "Readd uid now gcnow f k obj t = Add uid now gcnow f k obj"
      unfolding Readd_eq_merge Add_eq_merge Some using True by simp
    show ?thesis unfolding eq by (rule Add_keeps_tombstone_or_gone [OF wf ne tg])
  next
    case False
    have "Readd uid now gcnow f k obj t = Inr (f, [])"
      unfolding Readd_eq_merge Some using False by simp
    with wf tg show ?thesis by simp
  qed
qed

lemma Delete_keeps_tombstone_or_gone:
  assumes wf: "well_formed f" and tg: "tombstone_or_gone f key v"
  shows "\<exists>f' ns. Delete now f k = Inr (f', ns) \<and> well_formed f' \<and>
           tombstone_or_gone f' key v"
proof (cases "key = k")
  case False
  from Delete_keeps_other [OF wf False, of now]
  obtain f' ns where d: "Delete now f k = Inr (f', ns)" and w': "well_formed f'"
    and l: "map_of (items f') key = map_of (items f) key" by blast
  from tg l have "tombstone_or_gone f' key v" by (simp add: tombstone_or_gone_def)
  with d w' show ?thesis by (intro exI conjI)
next
  case True
  have "Delete now f k = Inr (f, [])"
    using tg True
    by (cases "map_of (items f) k") (simp_all add: Delete_def tombstone_or_gone_def)
  with wf tg show ?thesis by simp
qed

lemma Pop_keeps_tombstone_or_gone:
  assumes wf: "well_formed f" and tg: "tombstone_or_gone f key v"
  shows "\<exists>f'. step uid OpPop f = Inr f' \<and> well_formed f' \<and> tombstone_or_gone f' key v"
proof (cases "Pop f")
  case (Waiting g)
  then have "g = f\<lparr>queue := []\<rparr>" by (simp add: Pop_def Pop_loop_Waiting_state)
  with Waiting wf tg show ?thesis by simp
next
  case (Popped x g ns)
  then have pl: "Pop_loop f (queue f) = Popped x g ns" by (simp add: Pop_def)
  from Pop_loop_well_formed [OF wf, of "queue f"] pl have w': "well_formed g" by simp
  from Pop_loop_Popped_live [OF pl]
  obtain k e0 where e0: "map_of (items f) k = Some e0" "\<not> Is e0 (DELETE_EVENT OR POP_EVENT)"
    and it: "map_of (items g) = (map_of (items f))(k \<mapsto> PlainEntry \<lparr>value = x, event = POP_EVENT\<rparr>)"
    by blast
  have "k \<noteq> key" using e0 tg by (auto simp: Is_or tombstone_or_gone_def)
  then have "map_of (items g) key = map_of (items f) key" using it by simp
  with tg have "tombstone_or_gone g key v" by (simp add: tombstone_or_gone_def)
  with Popped w' show ?thesis by simp
qed

lemma Replace_keeps_tombstone_or_gone:
  assumes wf: "well_formed f" and tg: "tombstone_or_gone f key v"
    and nk: "map_of idToObj key = None"
  shows "\<exists>f' ns. Replace uid now clock f idToObj = Inr (f', ns) \<and> well_formed f' \<and>
           tombstone_or_gone f' key v"
proof -
  let ?m = "Replace_marked now idToObj f"
  let ?ns = "map snd (Replace_tombstones now (lingerTTL f) idToObj (items f))"
  have wm: "well_formed ?m" by (rule well_formed_Replace_marked [OF wf])
  have nin: "key \<notin> fst ` set idToObj" using nk by (simp add: map_of_eq_None_iff)
  obtain item where it: "Is item DELETE_EVENT" "Value item = v"
    and lk: "map_of (items ?m) key = Some item \<or> map_of (items ?m) key = None"
  proof (cases "map_of (items f) key")
    case None
    have a: "Is (DeletedEntry \<lparr>value = v, event = DELETE_EVENT\<rparr> 0) DELETE_EVENT" by simp
    have b: "Value (DeletedEntry \<lparr>value = v, event = DELETE_EVENT\<rparr> 0) = v" by (simp add: Value_def)
    have c: "map_of (items ?m) key = None" by (simp add: Replace_marked_lookup [OF wf] None)
    from a b c that show ?thesis by blast
  next
    case (Some e0)
    with tg have a: "Is e0 DELETE_EVENT" and b: "Value e0 = v"
      by (simp_all add: tombstone_or_gone_def)
    have c: "map_of (items ?m) key = Some e0" by (simp add: Replace_marked_lookup [OF wf] Some a)
    from a b c that show ?thesis by blast
  qed
  from Replace_merge_keeps_tombstone [OF wm nin lk it(1), of uid clock 0 ?ns]
  obtain f' ns' where r: "Replace_merge uid clock 0 idToObj (?m, ?ns) = Inr (f', ?ns @ ns')"
    and w': "well_formed f'"
    and l': "map_of (items f') key = Some item \<or> map_of (items f') key = None" by blast
  from l' it have "tombstone_or_gone f' key v" by (auto simp: tombstone_or_gone_def)
  with r w' show ?thesis unfolding Replace_eq [OF wf] by (intro exI conjI)
qed

lemma step_keeps_tombstone_or_gone:
  assumes wf: "well_formed f" and tg: "tombstone_or_gone f key v"
    and nm: "\<not> merges_key key op"
  shows "\<exists>f'. step uid op f = Inr f' \<and> well_formed f' \<and> tombstone_or_gone f' key v"
proof (cases op)
  case (OpAdd k obj now gcnow)
  with nm have ne: "key \<noteq> k" by auto
  from Add_keeps_tombstone_or_gone [OF wf ne tg, of uid now gcnow obj] OpAdd
  show ?thesis by auto
next
  case (OpUpdate k obj now gcnow)
  with nm have ne: "key \<noteq> k" by auto
  from Add_keeps_tombstone_or_gone [OF wf ne tg, of uid now gcnow obj] OpUpdate
  show ?thesis by (auto simp: Update_def)
next
  case (OpReadd k obj t now gcnow)
  with nm have ne: "key \<noteq> k" by auto
  from Readd_keeps_tombstone_or_gone [OF wf ne tg, of uid now gcnow obj t] OpReadd
  show ?thesis by auto
next
  case (OpDelete k now)
  from Delete_keeps_tombstone_or_gone [OF wf tg, of now k] OpDelete
  show ?thesis by auto
next
  case OpPop
  from Pop_keeps_tombstone_or_gone [OF wf tg, of uid] OpPop show ?thesis by simp
next
  case (OpReplace idToObj now clock)
  with nm have nk: "map_of idToObj key = None" by simp
  from Replace_keeps_tombstone_or_gone [OF wf tg nk, of uid now clock] OpReplace
  show ?thesis by auto
qed

lemma run_keeps_tombstone_or_gone:
  assumes "well_formed f" and "tombstone_or_gone f key v"
    and "\<forall>op \<in> set ops. \<not> merges_key key op"
  shows "\<exists>f'. run uid ops f = Inr f' \<and> well_formed f' \<and> tombstone_or_gone f' key v"
  using assms
proof (induction ops arbitrary: f)
  case Nil
  then show ?case by simp
next
  case (Cons op ops)
  from Cons.prems(3) have nm: "\<not> merges_key key op"
    and rest: "\<forall>op \<in> set ops. \<not> merges_key key op" by simp_all
  from step_keeps_tombstone_or_gone [OF Cons.prems(1,2) nm, of uid]
  obtain f1 where s: "step uid op f = Inr f1" and w1: "well_formed f1"
    and t1: "tombstone_or_gone f1 key v" by blast
  from Cons.IH [OF w1 t1 rest] s show ?case by simp
qed

lemma Delete_makes_tombstone:
  assumes wf: "well_formed f" and lk: "map_of (items f) key = Some e"
    and nd: "\<not> Is e DELETE_EVENT"
  shows "\<exists>f1 n. Delete now f key = Inr (f1, [n]) \<and> well_formed f1 \<and>
           tombstone_or_gone f1 key (Value e) \<and>
           map_of (items f1) key =
             Some (DeletedEntry ((entry_of e)\<lparr>event := DELETE_EVENT\<rparr>) (now + lingerTTL f))"
proof -
  let ?t = "DeletedEntry ((entry_of e)\<lparr>event := DELETE_EVENT\<rparr>) (now + lingerTTL f)"
  from well_formed_Delete [OF wf, of now key]
  obtain f' ns where d: "Delete now f key = Inr (f', ns)" and w': "well_formed f'" by blast
  have eq: "Delete now f key = Inr (f\<lparr>items := AList.update key ?t (items f)\<rparr>, [?t])"
  proof (rule Delete_cases [OF wf, of key now])
    assume "map_of (items f) key = None \<or> (\<exists>e. map_of (items f) key = Some e \<and> Is e DELETE_EVENT)"
    with lk nd show ?thesis by auto
  next
    fix e0
    assume a: "map_of (items f) key = Some e0"
      and b: "Delete now f key =
         Inr (f\<lparr>items := AList.update key
                   (DeletedEntry ((entry_of e0)\<lparr>event := DELETE_EVENT\<rparr>) (now + lingerTTL f))
                   (items f)\<rparr>,
              [DeletedEntry ((entry_of e0)\<lparr>event := DELETE_EVENT\<rparr>) (now + lingerTTL f)])"
    from a lk have "e0 = e" by simp
    with b show ?thesis by simp
  qed
  let ?f1 = "f\<lparr>items := AList.update key ?t (items f)\<rparr>"
  from d eq have f': "f' = ?f1" by simp
  have W: "well_formed ?f1" using w' f' by simp
  have L: "map_of (items ?f1) key = Some ?t" by (simp add: update_conv')
  have T: "tombstone_or_gone ?f1 key (Value e)"
    unfolding tombstone_or_gone_def L by simp
  show ?thesis
    by (rule exI [of _ ?f1], rule exI [of _ ?t]) (rule conjI [OF eq conjI [OF W conjI [OF T L]]])
qed

text \<open>
  C6, amended. \<^verbatim>\<open>Delete\<close> of a key whose entry is not tagged Delete returns with one
  notification, and from the state it leaves, every sequence of operations that merges
  no value for the key (no Add, Update or Readd of the key and no Replace whose new
  state contains it) returns and ends in a state where \<^verbatim>\<open>Get\<close> finds nothing under the
  key, \<^verbatim>\<open>ContainedIDs\<close> leaves the key out and \<^verbatim>\<open>List\<close> is what it would be without the
  key's entry, whether or not the tombstone has been swept. An Add of a value
  different from the deleted one, right after the Delete, makes the key visible again. On every
  well-formed state the three read operations show the entries tagged neither Delete
  nor Pop and no others: \<^verbatim>\<open>Get\<close> and \<^verbatim>\<open>List\<close> copies of their values, \<^verbatim>\<open>ContainedIDs\<close> the
  set of their keys.
\<close>

theorem reads_exclude_deleted_key:
  fixes f :: "'v HistoricalFIFO"
  assumes "well_formed f" and "map_of (items f) key = Some e" and "\<not> Is e DELETE_EVENT"
  shows "\<exists>f1 n. Delete now f key = Inr (f1, [n]) \<and>
      (\<forall>uid ops. (\<forall>op \<in> set ops. \<not> merges_key key op) \<longrightarrow>
         (\<exists>f2. run uid ops f1 = Inr f2 \<and>
               Get f2 key = None \<and> key \<notin> ContainedIDs f2 \<and>
               List f2 = List (f2\<lparr>items := AList.delete key (items f2)\<rparr>))) \<and>
      (\<forall>uid now' gcnow obj. obj \<noteq> Value e \<longrightarrow>
         (\<exists>f3 ns. Add uid now' gcnow f1 key obj = Inr (f3, ns) \<and> Get f3 key = Some obj \<and>
                  key \<in> ContainedIDs f3)) \<and>
      (\<forall>g :: 'v HistoricalFIFO. well_formed g \<longrightarrow>
         (\<forall>k. Get g k = (case map_of (items g) k of None \<Rightarrow> None
                        | Some x \<Rightarrow> if Is x DELETE_EVENT \<or> Is x POP_EVENT then None
                                    else Some (Copy (Value x)))) \<and>
         ContainedIDs g = {k. \<exists>x. map_of (items g) k = Some x \<and>
                                 \<not> Is x DELETE_EVENT \<and> \<not> Is x POP_EVENT} \<and>
         List g = map (\<lambda>(k, x). Copy (Value x))
                    (filter (\<lambda>(k, x). \<not> Is x DELETE_EVENT \<and> \<not> Is x POP_EVENT) (items g)))"
proof -
  from Delete_makes_tombstone [OF assms, of now]
  obtain f1 n where d: "Delete now f key = Inr (f1, [n])" and w1: "well_formed f1"
    and tg: "tombstone_or_gone f1 key (Value e)"
    and l1: "map_of (items f1) key =
             Some (DeletedEntry ((entry_of e)\<lparr>event := DELETE_EVENT\<rparr>) (now + lingerTTL f))"
    by blast
  have A: "\<forall>uid ops. (\<forall>op \<in> set ops. \<not> merges_key key op) \<longrightarrow>
         (\<exists>f2. run uid ops f1 = Inr f2 \<and>
               Get f2 key = None \<and> key \<notin> ContainedIDs f2 \<and>
               List f2 = List (f2\<lparr>items := AList.delete key (items f2)\<rparr>))"
  proof (intro allI impI)
    fix uid :: "'v \<Rightarrow> string" and ops :: "'v Op list"
    assume nm: "\<forall>op \<in> set ops. \<not> merges_key key op"
    from run_keeps_tombstone_or_gone [OF w1 tg nm, of uid]
    obtain f2 where r: "run uid ops f1 = Inr f2" and w2: "well_formed f2"
      and t2: "tombstone_or_gone f2 key (Value e)" by blast
    note x = reads_exclude_dead_key [OF w2 tombstone_or_gone_not_live [OF t2]]
    show "\<exists>f2. run uid ops f1 = Inr f2 \<and>
               Get f2 key = None \<and> key \<notin> ContainedIDs f2 \<and>
               List f2 = List (f2\<lparr>items := AList.delete key (items f2)\<rparr>)"
      by (rule exI [of _ f2]) (rule conjI [OF r x])
  qed
  have B: "\<forall>uid now' gcnow obj. obj \<noteq> Value e \<longrightarrow>
         (\<exists>f3 ns. Add uid now' gcnow f1 key obj = Inr (f3, ns) \<and> Get f3 key = Some obj \<and>
                  key \<in> ContainedIDs f3)"
  proof (intro allI impI)
    fix uid :: "'v \<Rightarrow> string" and now' gcnow :: Time and obj :: 'v
    assume ne: "obj \<noteq> Value e"
    let ?t = "DeletedEntry ((entry_of e)\<lparr>event := DELETE_EVENT\<rparr>) (now + lingerTTL f)"
    have w: "well_formed (enqueue_unless_live f1 key)" using w1 by simp
    have lk: "map_of (items (enqueue_unless_live f1 key)) key = Some ?t" using l1 by simp
    have tag: "Is ?t DELETE_EVENT" by simp
    from merge_into_tombstone [OF w lk tag, of uid now' gcnow obj] ne
    obtain f3 where m: "merge uid now' gcnow (enqueue_unless_live f1 key) key obj =
             Inr (f3, [PlainEntry \<lparr>value = obj, event = UPDATE_EVENT\<rparr>])"
      and w3: "well_formed f3"
      and l3: "map_of (items f3) key = Some (PlainEntry \<lparr>value = obj, event = UPDATE_EVENT\<rparr>)"
      by auto
    have lv: "live f3 key" using l3 by (simp add: live_def)
    have g: "Get f3 key = Some obj" using lv l3 by (simp add: Get_eq Value_def)
    have c: "key \<in> ContainedIDs f3" using lv by (simp add: ContainedIDs_eq [OF w3])
    from m g c show "\<exists>f3 ns. Add uid now' gcnow f1 key obj = Inr (f3, ns) \<and>
        Get f3 key = Some obj \<and> key \<in> ContainedIDs f3"
      unfolding Add_eq_merge by (intro exI conjI)
  qed
  have C: "\<forall>g :: 'v HistoricalFIFO. well_formed g \<longrightarrow>
         (\<forall>k. Get g k = (case map_of (items g) k of None \<Rightarrow> None
                        | Some x \<Rightarrow> if Is x DELETE_EVENT \<or> Is x POP_EVENT then None
                                    else Some (Copy (Value x)))) \<and>
         ContainedIDs g = {k. \<exists>x. map_of (items g) k = Some x \<and>
                                 \<not> Is x DELETE_EVENT \<and> \<not> Is x POP_EVENT} \<and>
         List g = map (\<lambda>(k, x). Copy (Value x))
                    (filter (\<lambda>(k, x). \<not> Is x DELETE_EVENT \<and> \<not> Is x POP_EVENT) (items g))"
  proof (intro allI impI conjI)
    fix g :: "'v HistoricalFIFO" and k
    show "Get g k = (case map_of (items g) k of None \<Rightarrow> None
                        | Some x \<Rightarrow> if Is x DELETE_EVENT \<or> Is x POP_EVENT then None
                                    else Some (Copy (Value x)))"
      by (cases "map_of (items g) k") (simp_all add: Get_eq live_def)
  next
    fix g :: "'v HistoricalFIFO"
    assume w: "well_formed g"
    show "ContainedIDs g = {k. \<exists>x. map_of (items g) k = Some x \<and>
                                 \<not> Is x DELETE_EVENT \<and> \<not> Is x POP_EVENT}"
      unfolding ContainedIDs_eq [OF w]
      by (auto simp: live_def split: option.splits)
  next
    fix g :: "'v HistoricalFIFO"
    show "List g = map (\<lambda>(k, x). Copy (Value x))
                    (filter (\<lambda>(k, x). \<not> Is x DELETE_EVENT \<and> \<not> Is x POP_EVENT) (items g))"
      by (simp add: List_eq)
  qed
  show ?thesis
    by (rule exI [of _ f1], rule exI [of _ n]) (rule conjI [OF d conjI [OF A conjI [OF B C]]])
qed


text \<open>Delete of \<open>K\<close>, then a Pop, an Add of another key, a second Delete of \<open>K\<close> and a
  Replace without \<open>K\<close>.\<close>

theorem reads_exclude_deleted_key_witness:
  "well_formed w8 \<and>
   map_of (items w8) ''K'' = Some (PlainEntry \<lparr>value = (''u1'', 1), event = ADD_EVENT\<rparr>) \<and>
   Delete 0 w8 ''K'' =
     Inr (d6, [DeletedEntry \<lparr>value = (''u1'', 1), event = DELETE_EVENT\<rparr> (5 * Minute)]) \<and>
   run fst d6_ops d6 = Inr d6_after \<and>
   Get d6_after ''K'' = None \<and> ''K'' \<notin> ContainedIDs d6_after \<and>
   List d6_after = [(''u2'', 3)] \<and> Get d6_after ''J'' = Some (''u2'', 3) \<and>
   (\<exists>f3 ns. Add fst 4 4 d6 ''K'' (''u1'', 2) = Inr (f3, ns) \<and> Get f3 ''K'' = Some (''u1'', 2))"
proof -
  have h: "well_formed w8" by (simp add: well_formed_def w8_def)
  have a: "map_of (items w8) ''K'' = Some (PlainEntry \<lparr>value = (''u1'', 1), event = ADD_EVENT\<rparr>)"
    by (simp add: w8_def)
  have b: "\<not> Is (PlainEntry \<lparr>value = (''u1'', 1 :: int), event = ADD_EVENT\<rparr>) DELETE_EVENT"
    by simp
  have d: "Delete 0 w8 ''K'' =
     Inr (d6, [DeletedEntry \<lparr>value = (''u1'', 1), event = DELETE_EVENT\<rparr> (5 * Minute)])"
    by (simp add: Delete_def w8_def d6_def Let_def)
  have r: "run fst d6_ops d6 = Inr d6_after"
    by (simp add: d6_ops_def d6_def d6_after_def Add_def Pop_def Delete_def Replace_def
          merge_def merge_store_def merge_gc_def gc_def Let_def Is_or Value_def Minute_def)
  have l: "List d6_after = [(''u2'', 3)]"
    by (simp add: List_def d6_after_def Is_or Value_def)
  have gj: "Get d6_after ''J'' = Some (''u2'', 3)"
    by (simp add: Get_def d6_after_def Is_or Value_def)
  have nm: "\<forall>op \<in> set d6_ops. \<not> merges_key ''K'' op" by (simp add: d6_ops_def)
  have ne: "(''u1'', 2 :: int) \<noteq> Value (PlainEntry \<lparr>value = (''u1'', 1), event = ADD_EVENT\<rparr>)"
    by (simp add: Value_def)
  from reads_exclude_deleted_key [OF h a b, of 0]
  obtain f1 n where d': "Delete 0 w8 ''K'' = Inr (f1, [n])"
    and A: "\<forall>uid ops. (\<forall>op \<in> set ops. \<not> merges_key ''K'' op) \<longrightarrow>
         (\<exists>f2. run uid ops f1 = Inr f2 \<and>
               Get f2 ''K'' = None \<and> ''K'' \<notin> ContainedIDs f2 \<and>
               List f2 = List (f2\<lparr>items := AList.delete ''K'' (items f2)\<rparr>))"
    and B: "\<forall>uid now' gcnow obj.
         obj \<noteq> Value (PlainEntry \<lparr>value = (''u1'', 1 :: int), event = ADD_EVENT\<rparr>) \<longrightarrow>
         (\<exists>f3 ns. Add uid now' gcnow f1 ''K'' obj = Inr (f3, ns) \<and> Get f3 ''K'' = Some obj \<and>
                  ''K'' \<in> ContainedIDs f3)"
    by blast
  from d d' have f1: "f1 = d6" by simp
  from A [THEN spec [where x = fst], THEN spec [where x = d6_ops], THEN mp, OF nm] r
  have g: "Get d6_after ''K'' = None" and c: "''K'' \<notin> ContainedIDs d6_after"
    unfolding f1 by simp_all
  from B [THEN spec [where x = fst], THEN spec [where x = 4], THEN spec [where x = 4],
          THEN spec [where x = "(''u1'', 2)"], THEN mp, OF ne]
  have ad: "\<exists>f3 ns. Add fst 4 4 d6 ''K'' (''u1'', 2) = Inr (f3, ns) \<and> Get f3 ''K'' = Some (''u1'', 2)"
    unfolding f1 by blast
  show ?thesis
    by (rule conjI [OF h conjI [OF a conjI [OF d conjI [OF r conjI [OF g conjI [OF c
          conjI [OF l conjI [OF gj ad]]]]]]]])
qed

text \<open>
  C6 as stated lets the key stay hidden until an Add of the key. A Replace whose new
  state holds the key with another value, and a Readd under a mask that contains
  Delete, make it visible as well, without any call of Add.
\<close>

theorem Replace_shows_deleted_key_counterexample:
  "map_of (items w8) ''K'' = Some (PlainEntry \<lparr>value = (''u1'', 1), event = ADD_EVENT\<rparr>) \<and>
   Delete 0 w8 ''K'' =
     Inr (d6, [DeletedEntry \<lparr>value = (''u1'', 1), event = DELETE_EVENT\<rparr> (5 * Minute)]) \<and>
   Get d6 ''K'' = None \<and>
   Replace fst 1 (\<lambda>i. (1, 1)) d6 [(''K'', (''u1'', 2))] =
     Inr (\<lparr>items = [(''K'', PlainEntry \<lparr>value = (''u1'', 2), event = UPDATE_EVENT\<rparr>)],
           queue = [''K''], gcc = 2, lingerTTL = 5 * Minute\<rparr>,
          [PlainEntry \<lparr>value = (''u1'', 2), event = UPDATE_EVENT\<rparr>]) \<and>
   Get \<lparr>items = [(''K'', PlainEntry \<lparr>value = (''u1'', 2 :: int), event = UPDATE_EVENT\<rparr>)],
        queue = [''K''], gcc = 2, lingerTTL = 5 * Minute\<rparr> ''K'' = Some (''u1'', 2) \<and>
   List \<lparr>items = [(''K'', PlainEntry \<lparr>value = (''u1'', 2 :: int), event = UPDATE_EVENT\<rparr>)],
         queue = [''K''], gcc = 2, lingerTTL = 5 * Minute\<rparr> = [(''u1'', 2)] \<and>
   ContainedIDs \<lparr>items = [(''K'', PlainEntry \<lparr>value = (''u1'', 2 :: int), event = UPDATE_EVENT\<rparr>)],
                 queue = [''K''], gcc = 2, lingerTTL = 5 * Minute\<rparr> = {''K''} \<and>
   Readd fst 1 1 d6 ''K'' (''u1'', 2) DELETE_EVENT =
     Inr (\<lparr>items = [(''K'', PlainEntry \<lparr>value = (''u1'', 2), event = UPDATE_EVENT\<rparr>)],
           queue = [''K'', ''K''], gcc = 2, lingerTTL = 5 * Minute\<rparr>,
          [PlainEntry \<lparr>value = (''u1'', 2), event = UPDATE_EVENT\<rparr>])"
  by (simp add: w8_def d6_def Delete_def Replace_def Readd_def Get_def List_def ContainedIDs_def
        merge_def merge_store_def merge_gc_def gc_def Let_def Is_or Value_def Minute_def)

section \<open>Occurrences of a key in the pending sequence\<close>

text \<open>What each operation does to the number of times a key stands in \<open>queue\<close>.\<close>

lemma queue_enqueue_unless_live:
  "queue (enqueue_unless_live f key) = (if live f key then queue f else queue f @ [key])"
  by (simp add: enqueue_unless_live_def)

lemma Add_queue:
  assumes wf: "well_formed f"
  shows "\<exists>f' ns P. Add uid now gcnow f key obj = Inr (f', ns) \<and> well_formed f' \<and>
           queue f' = filter P (if live f key then queue f else queue f @ [key])"
proof -
  have w: "well_formed (enqueue_unless_live f key)" using wf by simp
  from merge_effect [OF w, of uid now key obj gcnow]
  obtain f' ns where m: "merge uid now gcnow (enqueue_unless_live f key) key obj = Inr (f', ns)"
    and w': "well_formed f'" by blast
  from merge_queue_filter [OF w m]
  obtain P where q: "queue f' = filter P (queue (enqueue_unless_live f key))" by blast
  have q': "queue f' = filter P (if live f key then queue f else queue f @ [key])"
    using q unfolding queue_enqueue_unless_live .
  from m w' q' show ?thesis unfolding Add_eq_merge by (intro exI conjI)
qed

lemma Readd_queue:
  assumes wf: "well_formed f"
  shows "\<exists>f' ns P. Readd uid now gcnow f key obj t = Inr (f', ns) \<and> well_formed f' \<and>
           queue f' = filter P
             (case map_of (items f) key of
                None \<Rightarrow> queue f
              | Some entry \<Rightarrow>
                  if Is entry t \<and> (Is entry DELETE_EVENT \<or> Is entry POP_EVENT)
                  then queue f @ [key] else queue f)"
proof (cases "map_of (items f) key")
  case None
  from merge_effect [OF wf, of uid now key obj gcnow]
  obtain f' ns where m: "merge uid now gcnow f key obj = Inr (f', ns)"
    and w': "well_formed f'" by blast
  from merge_queue_filter [OF wf m]
  obtain P where q: "queue f' = filter P (queue f)" by blast
  have r: "Readd uid now gcnow f key obj t = Inr (f', ns)"
    unfolding Readd_eq_merge None using m by simp
  have q': "queue f' = filter P
             (case map_of (items f) key of
                None \<Rightarrow> queue f
              | Some entry \<Rightarrow>
                  if Is entry t \<and> (Is entry DELETE_EVENT \<or> Is entry POP_EVENT)
                  then queue f @ [key] else queue f)"
    unfolding None using q by simp
  from r w' q' show ?thesis by (intro exI conjI)
next
  case (Some entry)
  show ?thesis
  proof (cases "Is entry t")
    case True
    have eq: "Readd uid now gcnow f key obj t = Add uid now gcnow f key obj"
      unfolding Readd_eq_merge Add_eq_merge Some using True by simp
    have lv: "live f key = (\<not> (Is entry DELETE_EVENT \<or> Is entry POP_EVENT))"
      by (simp add: live_def Some)
    from Add_queue [OF wf, of uid now gcnow key obj]
    obtain f' ns P where a: "Add uid now gcnow f key obj = Inr (f', ns)" and w': "well_formed f'"
      and q: "queue f' = filter P (if live f key then queue f else queue f @ [key])" by blast
    have q': "queue f' = filter P
             (case map_of (items f) key of
                None \<Rightarrow> queue f
              | Some entry \<Rightarrow>
                  if Is entry t \<and> (Is entry DELETE_EVENT \<or> Is entry POP_EVENT)
                  then queue f @ [key] else queue f)"
      unfolding Some using q True lv by simp
    from a w' q' show ?thesis unfolding eq by (intro exI conjI)
  next
    case False
    have r: "Readd uid now gcnow f key obj t = Inr (f, [])"
      unfolding Readd_eq_merge Some using False by simp
    have q': "queue f = filter (\<lambda>k. True)
             (case map_of (items f) key of
                None \<Rightarrow> queue f
              | Some entry \<Rightarrow>
                  if Is entry t \<and> (Is entry DELETE_EVENT \<or> Is entry POP_EVENT)
                  then queue f @ [key] else queue f)"
      unfolding Some using False by simp
    from r wf q' show ?thesis by (intro exI conjI)
  qed
qed

lemma Readd_queue_le_Add:
  "count_list (case map_of (items f) key of
                None \<Rightarrow> queue f
              | Some entry \<Rightarrow>
                  if Is entry t \<and> (Is entry DELETE_EVENT \<or> Is entry POP_EVENT)
                  then queue f @ [key] else queue f) k
     \<le> count_list (if live f key then queue f else queue f @ [key]) k"
  by (cases "map_of (items f) key") (simp_all add: live_def)

lemma count_enqueue_live:
  "live f k \<Longrightarrow> count_list (if live f key then queue f else queue f @ [key]) k = count_list (queue f) k"
  by auto

lemma Pop_loop_queue_count:
  "count_list (queue (case Pop_loop f q of Waiting g \<Rightarrow> g | Popped v g ns \<Rightarrow> g)) k
     \<le> count_list q k"
  by (induction q) (auto simp: Let_def split: option.splits)

lemma Replace_merge_queue_count:
  assumes "well_formed f" and "distinct (map fst kvs)"
    and "\<forall>k \<in> fst ` set kvs. count_list (queue f) k = 0"
    and "\<forall>k. count_list (queue f) k \<le> 1"
  shows "\<exists>f' ns'. Replace_merge uid clock i kvs (f, ns) = Inr (f', ns') \<and> well_formed f' \<and>
           (\<forall>k. count_list (queue f') k \<le> 1)"
  using assms
proof (induction kvs arbitrary: f i ns)
  case Nil
  then show ?case by simp
next
  case (Cons p rest)
  obtain key obj where p: "p = (key, obj)" by (cases p)
  let ?g = "f\<lparr>queue := queue f @ [key]\<rparr>"
  have wg: "well_formed ?g" using Cons.prems(1) by simp
  from merge_effect [OF wg, of uid "fst (clock i)" key obj "snd (clock i)"]
  obtain f1 n where m: "merge uid (fst (clock i)) (snd (clock i)) ?g key obj = Inr (f1, n)"
    and w1: "well_formed f1" by blast
  from merge_queue_filter [OF wg m]
  obtain P where q: "queue f1 = filter P (queue f @ [key])" by auto
  have c0: "count_list (queue f) key = 0" using Cons.prems(3) p by simp
  have le: "\<And>k. count_list (queue f1) k \<le> count_list (queue f @ [key]) k"
    unfolding q by (rule count_list_filter_le)
  have d: "distinct (map fst rest)" using Cons.prems(2) by simp
  have z: "\<forall>k \<in> fst ` set rest. count_list (queue f1) k = 0"
  proof
    fix k assume k: "k \<in> fst ` set rest"
    then have "k \<noteq> key" using Cons.prems(2) p by auto
    moreover have "count_list (queue f) k = 0" using Cons.prems(3) k by auto
    ultimately have "count_list (queue f @ [key]) k = 0" by simp
    with le [of k] show "count_list (queue f1) k = 0" by simp
  qed
  have o: "\<forall>k. count_list (queue f1) k \<le> 1"
  proof
    fix k
    have "count_list (queue f @ [key]) k \<le> 1"
      using c0 Cons.prems(4) [THEN spec, of k] by (cases "k = key") simp_all
    with le [of k] show "count_list (queue f1) k \<le> 1" by simp
  qed
  from Cons.IH [OF w1 d z o, of "Suc i" "ns @ n"] m show ?case by (simp add: p)
qed

lemma Replace_queue_count:
  assumes wf: "well_formed f" and d: "distinct (map fst idToObj)"
  shows "\<exists>f' ns. Replace uid now clock f idToObj = Inr (f', ns) \<and> well_formed f' \<and>
           (\<forall>k. count_list (queue f') k \<le> 1)"
proof -
  let ?m = "Replace_marked now idToObj f"
  let ?ns = "map snd (Replace_tombstones now (lingerTTL f) idToObj (items f))"
  have wm: "well_formed ?m" by (rule well_formed_Replace_marked [OF wf])
  have z: "\<forall>k \<in> fst ` set idToObj. count_list (queue ?m) k = 0" by simp
  have o: "\<forall>k. count_list (queue ?m) k \<le> 1" by simp
  from Replace_merge_queue_count [OF wm d z o, of uid clock 0 ?ns]
  show ?thesis unfolding Replace_eq [OF wf] .
qed

lemma step_count_live:
  assumes wf: "well_formed f" and wo: "wf_Op op"
  shows "\<exists>f'. step uid op f = Inr f' \<and> well_formed f' \<and>
           (\<forall>k. live f k \<longrightarrow> count_list (queue f') k \<le> max 1 (count_list (queue f) k))"
proof (cases op)
  case (OpAdd key obj now gcnow)
  from Add_queue [OF wf, of uid now gcnow key obj]
  obtain f' ns P where a: "Add uid now gcnow f key obj = Inr (f', ns)" and w': "well_formed f'"
    and q: "queue f' = filter P (if live f key then queue f else queue f @ [key])" by blast
  have "\<forall>k. live f k \<longrightarrow> count_list (queue f') k \<le> max 1 (count_list (queue f) k)"
  proof (intro allI impI)
    fix k assume lv: "live f k"
    have "count_list (queue f') k \<le> count_list (if live f key then queue f else queue f @ [key]) k"
      unfolding q by (rule count_list_filter_le)
    also have "\<dots> = count_list (queue f) k" by (rule count_enqueue_live [OF lv])
    finally show "count_list (queue f') k \<le> max 1 (count_list (queue f) k)" by simp
  qed
  with a w' OpAdd show ?thesis by simp
next
  case (OpUpdate key obj now gcnow)
  from Add_queue [OF wf, of uid now gcnow key obj]
  obtain f' ns P where a: "Add uid now gcnow f key obj = Inr (f', ns)" and w': "well_formed f'"
    and q: "queue f' = filter P (if live f key then queue f else queue f @ [key])" by blast
  have "\<forall>k. live f k \<longrightarrow> count_list (queue f') k \<le> max 1 (count_list (queue f) k)"
  proof (intro allI impI)
    fix k assume lv: "live f k"
    have "count_list (queue f') k \<le> count_list (if live f key then queue f else queue f @ [key]) k"
      unfolding q by (rule count_list_filter_le)
    also have "\<dots> = count_list (queue f) k" by (rule count_enqueue_live [OF lv])
    finally show "count_list (queue f') k \<le> max 1 (count_list (queue f) k)" by simp
  qed
  with a w' OpUpdate show ?thesis by (simp add: Update_def)
next
  case (OpReadd key obj t now gcnow)
  from Readd_queue [OF wf, of uid now gcnow key obj t]
  obtain f' ns P where a: "Readd uid now gcnow f key obj t = Inr (f', ns)" and w': "well_formed f'"
    and q: "queue f' = filter P
             (case map_of (items f) key of
                None \<Rightarrow> queue f
              | Some entry \<Rightarrow>
                  if Is entry t \<and> (Is entry DELETE_EVENT \<or> Is entry POP_EVENT)
                  then queue f @ [key] else queue f)" by blast
  have "\<forall>k. live f k \<longrightarrow> count_list (queue f') k \<le> max 1 (count_list (queue f) k)"
  proof (intro allI impI)
    fix k assume lv: "live f k"
    have "count_list (queue f') k \<le> count_list (case map_of (items f) key of
                None \<Rightarrow> queue f
              | Some entry \<Rightarrow>
                  if Is entry t \<and> (Is entry DELETE_EVENT \<or> Is entry POP_EVENT)
                  then queue f @ [key] else queue f) k"
      unfolding q by (rule count_list_filter_le)
    also have "\<dots> \<le> count_list (if live f key then queue f else queue f @ [key]) k"
      by (rule Readd_queue_le_Add)
    also have "\<dots> = count_list (queue f) k" by (rule count_enqueue_live [OF lv])
    finally show "count_list (queue f') k \<le> max 1 (count_list (queue f) k)" by simp
  qed
  with a w' OpReadd show ?thesis by simp
next
  case (OpDelete key now)
  from well_formed_Delete [OF wf, of now key]
  obtain f' ns where d: "Delete now f key = Inr (f', ns)" and w': "well_formed f'"
    and q: "queue f' = queue f" by blast
  with OpDelete show ?thesis by simp
next
  case OpPop
  have w': "well_formed (case Pop_loop f (queue f) of Waiting g \<Rightarrow> g | Popped v g ns \<Rightarrow> g)"
    using Pop_loop_well_formed [OF wf, of "queue f"]
    by (cases "Pop_loop f (queue f)") simp_all
  have s: "step uid OpPop f = Inr (case Pop_loop f (queue f) of Waiting g \<Rightarrow> g | Popped v g ns \<Rightarrow> g)"
    by (cases "Pop_loop f (queue f)") (simp_all add: Pop_def)
  have "\<forall>k. live f k \<longrightarrow>
          count_list (queue (case Pop_loop f (queue f) of Waiting g \<Rightarrow> g | Popped v g ns \<Rightarrow> g)) k
            \<le> max 1 (count_list (queue f) k)"
    using Pop_loop_queue_count [of f "queue f"] by (simp add: le_max_iff_disj)
  with s w' OpPop show ?thesis by simp
next
  case (OpReplace idToObj now clock)
  with wo have d: "distinct (map fst idToObj)" by simp
  from Replace_queue_count [OF wf d, of uid now clock]
  obtain f' ns where r: "Replace uid now clock f idToObj = Inr (f', ns)" and w': "well_formed f'"
    and c: "\<forall>k. count_list (queue f') k \<le> 1" by blast
  from c have "\<forall>k. live f k \<longrightarrow> count_list (queue f') k \<le> max 1 (count_list (queue f) k)"
    by (simp add: le_max_iff_disj)
  with r w' OpReplace show ?thesis by simp
qed


lemma merge_queue_no_sweep:
  assumes "well_formed f" "merge uid now gcnow f key obj = Inr (f', ns)"
    and "(gcc f + 1) mod 256 \<noteq> 0"
  shows "queue f' = queue f"
  using merge_effect [OF assms(1), of uid now key obj gcnow] assms(2,3) by auto

lemma Add_queue_no_sweep:
  assumes wf: "well_formed f" and a: "Add uid now gcnow f key obj = Inr (f', ns)"
    and n: "(gcc f + 1) mod 256 \<noteq> 0"
  shows "queue f' = (if live f key then queue f else queue f @ [key])"
proof -
  have w: "well_formed (enqueue_unless_live f key)" using wf by simp
  have m: "merge uid now gcnow (enqueue_unless_live f key) key obj = Inr (f', ns)"
    using a unfolding Add_eq_merge .
  have g: "(gcc (enqueue_unless_live f key) + 1) mod 256 \<noteq> 0" using n by simp
  from merge_queue_no_sweep [OF w m g] show ?thesis
    unfolding queue_enqueue_unless_live .
qed

text \<open>
  C1, amended. On every well-formed state Add and Update return, and their pending
  sequence is that of the call with the key appended exactly when the key has no
  entry or one tagged Delete or Pop, less what the sweep of the merge filters out;
  without a sweep it is exactly that. Readd appends the key only when its entry
  matches the mask and is tagged Delete or Pop. No operation raises the number of
  occurrences of a key whose entry is live above the larger of one and what it was.
\<close>

theorem live_key_not_reenqueued:
  fixes f :: "'v HistoricalFIFO"
  assumes "well_formed f"
  shows "(\<forall>uid now gcnow key obj. \<exists>f' ns P.
            Add uid now gcnow f key obj = Inr (f', ns) \<and>
            Update uid now gcnow f key obj = Inr (f', ns) \<and>
            queue f' = filter P (if live f key then queue f else queue f @ [key]) \<and>
            ((gcc f + 1) mod 256 \<noteq> 0 \<longrightarrow>
               queue f' = (if live f key then queue f else queue f @ [key]))) \<and>
         (\<forall>uid now gcnow key obj t. \<exists>f' ns P.
            Readd uid now gcnow f key obj t = Inr (f', ns) \<and>
            queue f' = filter P
              (case map_of (items f) key of
                 None \<Rightarrow> queue f
               | Some entry \<Rightarrow>
                   if Is entry t \<and> (Is entry DELETE_EVENT \<or> Is entry POP_EVENT)
                   then queue f @ [key] else queue f)) \<and>
         (\<forall>uid op. wf_Op op \<longrightarrow>
            (\<exists>f'. step uid op f = Inr f' \<and> well_formed f' \<and>
                  (\<forall>k. live f k \<longrightarrow>
                       count_list (queue f') k \<le> max 1 (count_list (queue f) k))))"
proof (intro conjI allI impI)
  fix uid :: "'v \<Rightarrow> string" and now gcnow :: Time and key :: string and obj :: 'v
  from Add_queue [OF assms, of uid now gcnow key obj]
  obtain f' ns P where a: "Add uid now gcnow f key obj = Inr (f', ns)"
    and q: "queue f' = filter P (if live f key then queue f else queue f @ [key])" by blast
  have u: "Update uid now gcnow f key obj = Inr (f', ns)" using a by (simp add: Update_def)
  have n: "(gcc f + 1) mod 256 \<noteq> 0 \<longrightarrow>
               queue f' = (if live f key then queue f else queue f @ [key])"
    using Add_queue_no_sweep [OF assms a] by blast
  show "\<exists>f' ns P.
            Add uid now gcnow f key obj = Inr (f', ns) \<and>
            Update uid now gcnow f key obj = Inr (f', ns) \<and>
            queue f' = filter P (if live f key then queue f else queue f @ [key]) \<and>
            ((gcc f + 1) mod 256 \<noteq> 0 \<longrightarrow>
               queue f' = (if live f key then queue f else queue f @ [key]))"
    by (rule exI [of _ f'], rule exI [of _ ns], rule exI [of _ P])
       (rule conjI [OF a conjI [OF u conjI [OF q n]]])
next
  fix uid :: "'v \<Rightarrow> string" and now gcnow :: Time and key :: string and obj :: 'v
    and t :: EventType
  from Readd_queue [OF assms, of uid now gcnow key obj t]
  show "\<exists>f' ns P.
            Readd uid now gcnow f key obj t = Inr (f', ns) \<and>
            queue f' = filter P
              (case map_of (items f) key of
                 None \<Rightarrow> queue f
               | Some entry \<Rightarrow>
                   if Is entry t \<and> (Is entry DELETE_EVENT \<or> Is entry POP_EVENT)
                   then queue f @ [key] else queue f)"
    by blast
next
  fix uid :: "'v \<Rightarrow> string" and op :: "'v Op"
  assume "wf_Op op"
  then show "\<exists>f'. step uid op f = Inr f' \<and> well_formed f' \<and>
                  (\<forall>k. live f k \<longrightarrow>
                       count_list (queue f') k \<le> max 1 (count_list (queue f) k))"
    by (rule step_count_live [OF assms])
qed

text \<open>An Add of another value for a live, pending key.\<close>

theorem live_key_not_reenqueued_witness:
  "well_formed w8 \<and> live w8 ''K'' \<and> queue w8 = [''K''] \<and>
   step fst (OpAdd ''K'' (''u1'', 2) 3 4) w8 =
     Inr \<lparr>items = [(''K'', PlainEntry \<lparr>value = (''u1'', 2), event = UPDATE_EVENT\<rparr>)],
          queue = [''K''], gcc = 2, lingerTTL = 5 * Minute\<rparr> \<and>
   count_list (queue \<lparr>items = [(''K'', PlainEntry \<lparr>value = (''u1'', 2 :: int), event = UPDATE_EVENT\<rparr>)],
          queue = [''K''], gcc = 2, lingerTTL = 5 * Minute\<rparr>) ''K'' \<le> 1"
proof -
  have h: "well_formed w8" by (simp add: well_formed_def w8_def)
  have lv: "live w8 ''K''" by (simp add: live_def w8_def)
  have q: "queue w8 = [''K'']" by (simp add: w8_def)
  have s: "step fst (OpAdd ''K'' (''u1'', 2) 3 4) w8 =
     Inr \<lparr>items = [(''K'', PlainEntry \<lparr>value = (''u1'', 2), event = UPDATE_EVENT\<rparr>)],
          queue = [''K''], gcc = 2, lingerTTL = 5 * Minute\<rparr>"
    by (simp add: Add_def merge_def merge_store_def merge_gc_def w8_def Let_def Is_or Value_def)
  have wo: "wf_Op (OpAdd ''K'' (''u1'', 2 :: int) 3 4)" by simp
  from live_key_not_reenqueued [OF h, THEN conjunct2, THEN conjunct2, THEN spec [where x = fst],
         THEN spec, THEN mp, OF wo]
  obtain f' where s': "step fst (OpAdd ''K'' (''u1'', 2) 3 4) w8 = Inr f'"
    and c: "\<forall>k. live w8 k \<longrightarrow> count_list (queue f') k \<le> max 1 (count_list (queue w8) k)"
    by blast
  from c lv have "count_list (queue f') ''K'' \<le> max 1 (count_list (queue w8) ''K'')" by blast
  then have c1: "count_list (queue f') ''K'' \<le> 1" by (simp add: q)
  from s s' have f': "f' = \<lparr>items = [(''K'', PlainEntry \<lparr>value = (''u1'', 2), event = UPDATE_EVENT\<rparr>)],
          queue = [''K''], gcc = 2, lingerTTL = 5 * Minute\<rparr>" by simp
  from c1 have c2: "count_list (queue \<lparr>items = [(''K'', PlainEntry \<lparr>value = (''u1'', 2 :: int), event = UPDATE_EVENT\<rparr>)],
          queue = [''K''], gcc = 2, lingerTTL = 5 * Minute\<rparr>) ''K'' \<le> 1"
    unfolding f' .
  show ?thesis by (rule conjI [OF h conjI [OF lv conjI [OF q conjI [OF s c2]]]])
qed

text \<open>
  C1 as stated fails as an invariant: \<^verbatim>\<open>Delete\<close> leaves the key in the pending
  sequence, so an Add of another value after it finds a tombstone, appends the key a
  second time and makes the entry live again.
\<close>

theorem live_key_pending_twice_counterexample:
  "run fst [OpAdd ''K'' (''u1'', 1 :: int) 1 1, OpDelete ''K'' 2, OpAdd ''K'' (''u1'', 2) 3 3] NewFIFO =
     Inr \<lparr>items = [(''K'', PlainEntry \<lparr>value = (''u1'', 2), event = UPDATE_EVENT\<rparr>)],
          queue = [''K'', ''K''], gcc = 2, lingerTTL = 5 * Minute\<rparr> \<and>
   live \<lparr>items = [(''K'', PlainEntry \<lparr>value = (''u1'', 2 :: int), event = UPDATE_EVENT\<rparr>)],
          queue = [''K'', ''K''], gcc = 2, lingerTTL = 5 * Minute\<rparr> ''K'' \<and>
   count_list (queue \<lparr>items = [(''K'', PlainEntry \<lparr>value = (''u1'', 2 :: int), event = UPDATE_EVENT\<rparr>)],
          queue = [''K'', ''K''], gcc = 2, lingerTTL = 5 * Minute\<rparr>) ''K'' = 2"
  by (simp add: NewFIFO_def Add_def Delete_def merge_def merge_store_def merge_gc_def live_def
        Let_def Is_or Value_def)

section \<open>Replace as a whole\<close>



















end
